theory Spec2Isabelle
  imports Main
begin

section \<open>Number notation to MIDI: the model of number\_to\_midi.py\<close>

subsection \<open>Python strings\<close>

text \<open>
  A Python \<open>str\<close> is a sequence of Unicode code points, so a text is a list of natural
  numbers here. \<open>S\<close> reads an ASCII literal of the source as such a list.
\<close>

type_synonym pystr = "nat list"

definition S :: "string \<Rightarrow> pystr" where
  "S s = map of_char s"

text \<open>
  The code points CPython takes for whitespace in \<open>str.strip()\<close> and \<open>str.split()\<close>:
  U+0009..U+000D, U+001C..U+0020, U+0085, U+00A0, U+1680, U+2000..U+200A, U+2028, U+2029,
  U+202F, U+205F, U+3000.
\<close>

definition isspace :: "nat \<Rightarrow> bool" where
  "isspace c \<longleftrightarrow>
     (9 \<le> c \<and> c \<le> 13) \<or> (28 \<le> c \<and> c \<le> 32) \<or> c = 133 \<or> c = 160 \<or> c = 5760 \<or>
     (8192 \<le> c \<and> c \<le> 8202) \<or> c = 8232 \<or> c = 8233 \<or> c = 8239 \<or> c = 8287 \<or> c = 12288"

definition strip :: "pystr \<Rightarrow> pystr" where
  "strip s = rev (dropWhile isspace (rev (dropWhile isspace s)))"

text \<open>\<open>s.split(sep)\<close> for a separator of one character: one more piece than separators.\<close>

fun split_sep :: "nat \<Rightarrow> pystr \<Rightarrow> pystr list" where
  "split_sep sep [] = [[]]"
| "split_sep sep (c # cs) =
     (if c = sep then [] # split_sep sep cs
      else (c # hd (split_sep sep cs)) # tl (split_sep sep cs))"

text \<open>\<open>s.split()\<close>: the maximal runs of characters that are not whitespace.\<close>

function split_ws :: "pystr \<Rightarrow> pystr list" where
  "split_ws s =
     (case dropWhile isspace s of
        [] \<Rightarrow> []
      | c # cs \<Rightarrow> takeWhile (\<lambda>x. \<not> isspace x) (c # cs)
                 # split_ws (dropWhile (\<lambda>x. \<not> isspace x) cs))"
  by pat_completeness auto
termination
proof (relation "measure length")
  show "wf (measure length)" by simp
next
  fix s :: pystr and c cs
  assume "dropWhile isspace s = c # cs"
  then have "length cs < length s"
    using length_dropWhile_le [of isspace s] by simp
  moreover have "length (dropWhile (\<lambda>x. \<not> isspace x) cs) \<le> length cs"
    by (rule length_dropWhile_le)
  ultimately show "(dropWhile (\<lambda>x. \<not> isspace x) cs, s) \<in> measure length"
    by simp
qed

declare split_ws.simps [simp del]

definition startswith :: "pystr \<Rightarrow> nat \<Rightarrow> bool" where
  "startswith s c \<longleftrightarrow> s \<noteq> [] \<and> hd s = c"

definition endswith :: "pystr \<Rightarrow> nat \<Rightarrow> bool" where
  "endswith s c \<longleftrightarrow> s \<noteq> [] \<and> last s = c"

subsection \<open>The pitch table and its lookup\<close>

definition NUMBER_TO_MIDI_MAP :: "(pystr \<times> int) list" where
  "NUMBER_TO_MIDI_MAP =
     [(S ''1'', 41), (S ''2'', 43), (S ''3'', 48), (S ''4'', 50), (S ''5'', 52),
      (S ''6'', 53), (S ''7'', 55), (S ''8'', 57), (S ''9'', 58), (S ''10'', 59),
      (S ''11'', 60), (S ''12'', 61), (S ''13'', 62), (S ''14'', 63), (S ''15'', 64),
      (S ''16'', 65), (S ''17'', 66), (S ''18'', 67), (S ''19'', 68), (S ''20'', 69),
      (S ''21'', 70), (S ''22'', 71), (S ''23'', 72), (S ''24'', 73), (S ''25'', 74),
      (S ''26'', 75), (S ''27'', 76), (S ''28'', 77), (S ''29'', 79), (S ''30'', 81)]"

definition TICKS_PER_8TH_NOTE :: int where
  "TICKS_PER_8TH_NOTE = 240"

text \<open>
  \<open>number_to_midi\<close> returns the pitch, or \<open>None\<close>, and prints a warning in the second
  case: the lines it prints are the second component of the result.
\<close>

definition warning :: "pystr \<Rightarrow> pystr" where
  "warning num_str =
     S ''Warning: Number '' @ [39] @ num_str @ [39] @ S '' is not in the 1-30 range. Skipping.''"

definition number_to_midi :: "pystr \<Rightarrow> int option \<times> pystr list" where
  "number_to_midi num_str0 =
     (let num_str = strip num_str0;
          midi_note = map_of NUMBER_TO_MIDI_MAP num_str
      in (midi_note, if midi_note = None then [warning num_str] else []))"

subsection \<open>The decoder\<close>

record parsed_event =
  ev_notes :: "int list"
  ev_duration :: int

text \<open>The chord of a slot: the pitches of its tokens, the tokens without a pitch left out.\<close>

definition slot_notes :: "pystr \<Rightarrow> int list" where
  "slot_notes slot_content =
     (let notes = map (\<lambda>n. fst (number_to_midi n)) (split_ws slot_content)
      in map the (filter (\<lambda>n. n \<noteq> None) notes))"

text \<open>The inner loop: \<open>j\<close> runs over the empty slots after a chord, counting them.\<close>

function lookahead :: "pystr list \<Rightarrow> nat \<Rightarrow> int \<Rightarrow> nat \<times> int" where
  "lookahead slots j duration_in_slots =
     (if j < length slots - 1 \<and> strip (slots ! j) = []
      then lookahead slots (j + 1) (duration_in_slots + 1)
      else (j, duration_in_slots))"
  by pat_completeness auto
termination
  by (relation "measure (\<lambda>(slots, j, d). length slots - j)") auto

lemma lookahead_ge: "j \<le> fst (lookahead slots j d)"
proof (induction slots j d rule: lookahead.induct)
  case (1 slots j d)
  show ?case
  proof (cases "j < length slots - 1 \<and> strip (slots ! j) = []")
    case True
    with "1" have "j + 1 \<le> fst (lookahead slots (j + 1) (d + 1))" by simp
    with True show ?thesis by (subst lookahead.simps) simp
  next
    case False
    then show ?thesis by (subst lookahead.simps) auto
  qed
qed

declare lookahead.simps [simp del]

function parse_loop :: "pystr list \<Rightarrow> nat \<Rightarrow> parsed_event list \<Rightarrow> parsed_event list" where
  "parse_loop slots i parsed_events =
     (if i < length slots - 1 then
        (let slot_content = strip (slots ! i) in
         if slot_content \<noteq> [] then
           (let notes = slot_notes slot_content;
                (j, duration_in_slots) = lookahead slots (i + 1) 1
            in parse_loop slots j
                 (if notes \<noteq> []
                  then parsed_events @ [\<lparr>ev_notes = notes, ev_duration = duration_in_slots\<rparr>]
                  else parsed_events))
         else parse_loop slots (i + 1) parsed_events)
      else parsed_events)"
  by pat_completeness auto
termination
proof (relation "measure (\<lambda>(slots, i, evs). length slots - i)")
  show "wf (measure (\<lambda>(slots, i, evs). length slots - i))" by simp
next
  fix slots :: "pystr list" and i :: nat and parsed_events :: "parsed_event list"
    and x xa and x1 :: nat and x2 :: int
  assume "i < length slots - 1" and "xa = lookahead slots (i + 1) 1" and "(x1, x2) = xa"
  then have "i + 1 \<le> x1"
    using lookahead_ge [of "i + 1" slots 1] by (metis fst_conv)
  with \<open>i < length slots - 1\<close>
  show "((slots, x1,
          if x \<noteq> [] then parsed_events @ [\<lparr>ev_notes = x, ev_duration = x2\<rparr>] else parsed_events),
         slots, i, parsed_events) \<in> measure (\<lambda>(slots, i, evs). length slots - i)"
    by simp
next
  fix slots :: "pystr list" and i :: nat and parsed_events :: "parsed_event list"
  assume "i < length slots - 1"
  then show "((slots, i + 1, parsed_events), slots, i, parsed_events)
      \<in> measure (\<lambda>(slots, i, evs). length slots - i)"
    by simp
qed

declare parse_loop.simps [simp del]

definition normalize :: "pystr \<Rightarrow> pystr" where
  "normalize number_string =
     (let s = strip number_string;
          s = (if \<not> startswith s 47 then 47 # s else s);
          s = (if \<not> endswith s 47 then s @ [47] else s)
      in s)"

definition parse_number_string :: "pystr \<Rightarrow> parsed_event list" where
  "parse_number_string number_string =
     (let slots = split_sep 47 (normalize number_string)
      in parse_loop slots 1 [])"

subsection \<open>The pre-validator\<close>

text \<open>The loop over \<open>range(len(parsed_events) - 1)\<close>, leaving at the first violation.\<close>

fun validate_from :: "parsed_event list \<Rightarrow> nat list \<Rightarrow> bool" where
  "validate_from parsed_events [] = True"
| "validate_from parsed_events (i # ixs) =
     (if ev_duration (parsed_events ! i) = 1 \<and> ev_duration (parsed_events ! (i + 1)) = 1
      then (if \<not> (set (ev_notes (parsed_events ! i))
                     \<inter> set (ev_notes (parsed_events ! (i + 1))) = {})
            then False
            else validate_from parsed_events ixs)
      else validate_from parsed_events ixs)"

definition validate_events_pre_creation :: "parsed_event list \<Rightarrow> bool" where
  "validate_events_pre_creation parsed_events =
     validate_from parsed_events [0..<length parsed_events - 1]"

subsection \<open>Clef events: splitting and merging\<close>

text \<open>
  A clef event is a dictionary with the keys \<open>type\<close>, \<open>notes\<close> and \<open>duration\<close>; the type
  is one of the strings \<open>note\<close>, \<open>sustain\<close> and \<open>rest\<close>, and a rest has no notes.
\<close>

datatype event = Note "int list" int | Sustain "int list" int | Rest int

fun duration_of :: "event \<Rightarrow> int" where
  "duration_of (Note ns d) = d"
| "duration_of (Sustain ns d) = d"
| "duration_of (Rest d) = d"

fun is_note :: "event \<Rightarrow> bool" where
  "is_note (Note ns d) = True"
| "is_note e = False"

fun add_duration :: "event \<Rightarrow> int \<Rightarrow> event" where
  "add_duration (Note ns d) x = Note ns (d + x)"
| "add_duration (Sustain ns d) x = Sustain ns (d + x)"
| "add_duration (Rest d) x = Rest (d + x)"

definition raw_event :: "int list \<Rightarrow> int \<Rightarrow> event" where
  "raw_event ns d = (if ns \<noteq> [] then Note ns d else Sustain ns d)"

definition split_step :: "event list \<times> event list \<Rightarrow> parsed_event \<Rightarrow> event list \<times> event list" where
  "split_step acc ev =
     (let (treble_events_raw, bass_events_raw) = acc;
          treble_notes = filter (\<lambda>n. n \<ge> 60) (ev_notes ev);
          bass_notes = filter (\<lambda>n. n < 60) (ev_notes ev);
          d = ev_duration ev
      in (treble_events_raw @ [raw_event treble_notes d],
          bass_events_raw @ [raw_event bass_notes d]))"

definition split_events :: "parsed_event list \<Rightarrow> event list \<times> event list" where
  "split_events parsed_events = foldl split_step ([], []) parsed_events"

fun merge_step :: "event list \<Rightarrow> event \<Rightarrow> event list" where
  "merge_step merged (Note ns d) = merged @ [Note ns d]"
| "merge_step merged (Sustain ns d) =
     (if merged \<noteq> [] \<and> is_note (last merged)
      then butlast merged @ [add_duration (last merged) d]
      else merged @ [Rest d])"
| "merge_step merged (Rest d) = merged"

definition merge_sustain_events :: "event list \<Rightarrow> event list" where
  "merge_sustain_events raw_events = foldl merge_step [] raw_events"

subsection \<open>The track encoder\<close>

text \<open>
  The messages of the MIDI library, as far as the program builds and reads them; every
  message has its delta time. \<open>OtherMessage\<close> is a message of any other type in a file.
\<close>

datatype message =
    NoteOn (pitch: int) (velocity: int) (time: int)
  | NoteOff (pitch: int) (velocity: int) (time: int)
  | SetTempo (tempo: int) (time: int)
  | OtherMessage (time: int)

datatype py_error = IndexError | ReadError

text \<open>
  One pass of the loop body. The state is the pending delay and the track; \<open>notes[0]\<close>
  of an empty chord raises.
\<close>

fun write_event :: "int \<times> message list \<Rightarrow> event \<Rightarrow> py_error + int \<times> message list" where
  "write_event (pending_delay, track) (Note ns d) =
     (let duration_ticks = d * TICKS_PER_8TH_NOTE in
      case ns of
        [] \<Rightarrow> Inl IndexError
      | n0 # others \<Rightarrow>
          (let track = track @ [NoteOn n0 80 pending_delay];
               track = foldl (\<lambda>t n. t @ [NoteOn n 80 0]) track others;
               pending_delay = 0;
               track = track @ [NoteOff n0 80 duration_ticks];
               track = foldl (\<lambda>t n. t @ [NoteOff n 80 0]) track others
           in Inr (pending_delay, track)))"
| "write_event (pending_delay, track) (Rest d) =
     Inr (pending_delay + d * TICKS_PER_8TH_NOTE, track)"
| "write_event (pending_delay, track) (Sustain ns d) = Inr (pending_delay, track)"

fun write_loop :: "int \<times> message list \<Rightarrow> event list \<Rightarrow> py_error + int \<times> message list" where
  "write_loop st [] = Inr st"
| "write_loop st (e # es) =
     (case write_event st e of Inl err \<Rightarrow> Inl err | Inr st' \<Rightarrow> write_loop st' es)"

definition write_track_from_final_events :: "message list \<Rightarrow> event list \<Rightarrow> py_error + message list" where
  "write_track_from_final_events track final_events =
     (case write_loop (0, track) final_events of
        Inl err \<Rightarrow> Inl err
      | Inr (pending_delay, track') \<Rightarrow> Inr track')"

record midi_file =
  ticks_per_beat :: int
  tracks :: "message list list"

text \<open>
  The file object as it is saved: the library's resolution of 480 ticks per beat (the
  parameter \<open>ticks_per_beat\<close> of the source is not passed on), the tempo of 150 beats
  per minute (400000 microseconds per beat) at the head of the treble track.
\<close>

definition create_midi_file :: "parsed_event list \<Rightarrow> int \<Rightarrow> py_error + midi_file" where
  "create_midi_file parsed_events ticks_per_beat_arg =
     (let track_treble = [SetTempo 400000 0];
          track_bass = [];
          (treble_events_raw, bass_events_raw) = split_events parsed_events;
          final_treble_events = merge_sustain_events treble_events_raw;
          final_bass_events = merge_sustain_events bass_events_raw
      in case write_track_from_final_events track_treble final_treble_events of
           Inl err \<Rightarrow> Inl err
         | Inr track_treble' \<Rightarrow>
             (case write_track_from_final_events track_bass final_bass_events of
                Inl err \<Rightarrow> Inl err
              | Inr track_bass' \<Rightarrow>
                  Inr \<lparr>ticks_per_beat = 480, tracks = [track_treble', track_bass']\<rparr>))"

subsection \<open>The post-validator\<close>

record vstate =
  absolute_time :: int
  notes_on :: "int \<rightharpoonup> int"
  last_note_off_time :: "int \<rightharpoonup> int"

text \<open>
  \<open>ticks_for_8th\<close> is \<open>ticks_per_beat / 2\<close>, a float; \<open>x < ticks_per_beat / 2\<close> for an
  integer \<open>x\<close> is \<open>2 * x < ticks_per_beat\<close>. \<open>None\<close> is the \<open>return False\<close> of the loop.
\<close>

definition note_on_branch :: "int \<Rightarrow> vstate \<Rightarrow> int \<Rightarrow> vstate option" where
  "note_on_branch tpb st n =
     (case last_note_off_time st n of
        Some off \<Rightarrow>
          (let time_since_last_off = absolute_time st - off in
           if 2 * time_since_last_off < tpb then None
           else Some (st\<lparr>notes_on := (notes_on st)(n \<mapsto> absolute_time st)\<rparr>))
      | None \<Rightarrow> Some (st\<lparr>notes_on := (notes_on st)(n \<mapsto> absolute_time st)\<rparr>))"

definition note_off_branch :: "int \<Rightarrow> vstate \<Rightarrow> int \<Rightarrow> vstate option" where
  "note_off_branch tpb st n =
     (case notes_on st n of
        Some started \<Rightarrow>
          (let held = absolute_time st - started;
               st = (if 2 * held < tpb
                     then st\<lparr>last_note_off_time := (last_note_off_time st)(n \<mapsto> absolute_time st)\<rparr>
                     else st)
           in Some (st\<lparr>notes_on := (notes_on st)(n := None)\<rparr>))
      | None \<Rightarrow> Some st)"

fun check_msg :: "int \<Rightarrow> vstate \<Rightarrow> message \<Rightarrow> vstate option" where
  "check_msg tpb st (NoteOn n v t) =
     (let st = st\<lparr>absolute_time := absolute_time st + t\<rparr> in
      if v > 0 then note_on_branch tpb st n
      else if v = 0 then note_off_branch tpb st n
      else Some st)"
| "check_msg tpb st (NoteOff n v t) =
     note_off_branch tpb (st\<lparr>absolute_time := absolute_time st + t\<rparr>) n"
| "check_msg tpb st (SetTempo x t) = Some (st\<lparr>absolute_time := absolute_time st + t\<rparr>)"
| "check_msg tpb st (OtherMessage t) = Some (st\<lparr>absolute_time := absolute_time st + t\<rparr>)"

fun check_track :: "int \<Rightarrow> vstate \<Rightarrow> message list \<Rightarrow> vstate option" where
  "check_track tpb st [] = Some st"
| "check_track tpb st (msg # msgs) =
     (case check_msg tpb st msg of None \<Rightarrow> None | Some st' \<Rightarrow> check_track tpb st' msgs)"

definition initial_vstate :: vstate where
  "initial_vstate = \<lparr>absolute_time = 0, notes_on = Map.empty, last_note_off_time = Map.empty\<rparr>"

fun check_tracks :: "int \<Rightarrow> message list list \<Rightarrow> bool" where
  "check_tracks tpb [] = True"
| "check_tracks tpb (track # rest_tracks) =
     (case check_track tpb initial_vstate track of
        None \<Rightarrow> False
      | Some st \<Rightarrow> check_tracks tpb rest_tracks)"

text \<open>
  The argument is what \<open>mido.MidiFile(filename)\<close> gives: the file object, or the
  exception of a file that cannot be read, which the \<open>except\<close> clause turns into False.
\<close>

definition validate_midi_post_creation :: "py_error + midi_file \<Rightarrow> bool" where
  "validate_midi_post_creation loaded =
     (case loaded of
        Inl err \<Rightarrow> False
      | Inr mid \<Rightarrow> check_tracks (ticks_per_beat mid) (tracks mid))"

section \<open>Notions of the specification\<close>

text \<open>
  Two adjacent decoded events, at \<open>i\<close> and \<open>i + 1\<close>, both of duration 1, whose pitch sets
  share a pitch.
\<close>

definition adjacent_clash :: "parsed_event list \<Rightarrow> nat \<Rightarrow> bool" where
  "adjacent_clash evs i \<longleftrightarrow>
     ev_duration (evs ! i) = 1 \<and> ev_duration (evs ! (i + 1)) = 1 \<and>
     set (ev_notes (evs ! i)) \<inter> set (ev_notes (evs ! (i + 1))) \<noteq> {}"

text \<open>
  A raw clef sequence holds notes and sustains only; a merged one holds notes, each with
  a chord that is not empty, and rests only.
\<close>

definition raw_ok :: "event list \<Rightarrow> bool" where
  "raw_ok raw = list_all (\<lambda>e. case e of Rest d \<Rightarrow> False | _ \<Rightarrow> True) raw"

definition merged_ok :: "event list \<Rightarrow> bool" where
  "merged_ok evs =
     list_all (\<lambda>e. case e of Note ns d \<Rightarrow> ns \<noteq> [] | Sustain ns d \<Rightarrow> False | Rest d \<Rightarrow> True) evs"

text \<open>
  The encoder as the specification words it, for an atomic slot of 240 ticks and the
  velocity 80 of the source: the messages of one note, and of a sequence read with a
  pending delay. A sustain and a note without a chord are no merged events; the two
  equations for them are there to make the functions total.
\<close>

fun note_messages :: "int \<Rightarrow> int list \<Rightarrow> int \<Rightarrow> message list" where
  "note_messages pending [] d = []"
| "note_messages pending (p # ps) d =
     NoteOn p 80 pending # map (\<lambda>q. NoteOn q 80 0) ps
     @ NoteOff p 80 (d * 240) # map (\<lambda>q. NoteOff q 80 0) ps"

fun encode :: "int \<Rightarrow> event list \<Rightarrow> message list" where
  "encode pending [] = []"
| "encode pending (Rest d # es) = encode (pending + d * 240) es"
| "encode pending (Note ps d # es) = note_messages pending ps d @ encode 0 es"
| "encode pending (Sustain ps d # es) = encode pending es"

text \<open>
  Decoding the messages back: \<open>absolute t msgs\<close> replaces each delta time by the absolute
  time, summed from \<open>t\<close>. \<open>onset evs i\<close> is 240 times the sum of the durations of the
  events before event \<open>i\<close>, and \<open>expected_at evs i\<close> holds the notes of event \<open>i\<close> at
  their absolute times: every pitch on at the onset and off at the onset plus the
  duration times 240.
\<close>

fun at_time :: "message \<Rightarrow> int \<Rightarrow> message" where
  "at_time (NoteOn p v t) a = NoteOn p v a"
| "at_time (NoteOff p v t) a = NoteOff p v a"
| "at_time (SetTempo x t) a = SetTempo x a"
| "at_time (OtherMessage t) a = OtherMessage a"

fun absolute :: "int \<Rightarrow> message list \<Rightarrow> message list" where
  "absolute t [] = []"
| "absolute t (m # ms) = at_time m (t + time m) # absolute (t + time m) ms"

definition onset :: "event list \<Rightarrow> nat \<Rightarrow> int" where
  "onset evs i = 240 * sum_list (map duration_of (take i evs))"

definition expected_at :: "event list \<Rightarrow> nat \<Rightarrow> message list" where
  "expected_at evs i =
     (case evs ! i of
        Note ps d \<Rightarrow> map (\<lambda>p. NoteOn p 80 (onset evs i)) ps
                     @ map (\<lambda>p. NoteOff p 80 (onset evs i + d * 240)) ps
      | _ \<Rightarrow> [])"

text \<open>The decimal numeral of a number, and the tabulated pitches of the degrees 1 to 30.\<close>

fun decimal :: "nat \<Rightarrow> pystr" where
  "decimal n = (if n < 10 then [48 + n] else decimal (n div 10) @ [48 + n mod 10])"

declare decimal.simps [simp del]

definition tabulated_pitches :: "int list" where
  "tabulated_pitches =
     [41, 43, 48, 50, 52, 53, 55, 57, 58, 59] @
     [60, 61, 62, 63, 64, 65, 66, 67, 68, 69] @
     [70, 71, 72, 73, 74, 75, 76, 77, 79, 81]"

text \<open>
  The slots of a text, in the words of the specification: the text is delimited, a
  delimiter put before it and after it where it has none; it is split at the
  delimiters; the first and the last piece are left out. \<open>join sep pieces\<close> puts pieces
  together again, with a delimiter between two of them. A slot is blank when it holds
  whitespace only. \<open>run_after slots i\<close> counts the blank slots that follow slot \<open>i\<close>
  immediately, and \<open>decoded_at slots i\<close> is what slot \<open>i\<close> contributes to the decoded
  sequence: an event when the slot has a chord with a valid pitch, nothing otherwise.
\<close>

definition delimited :: "pystr \<Rightarrow> pystr" where
  "delimited s =
     (let s1 = (if s \<noteq> [] \<and> hd s = 47 then s else 47 # s)
      in if last s1 = 47 then s1 else s1 @ [47])"

definition slots_of :: "pystr \<Rightarrow> pystr list" where
  "slots_of s = butlast (tl (split_sep 47 (delimited s)))"

fun join :: "nat \<Rightarrow> pystr list \<Rightarrow> pystr" where
  "join sep [] = []"
| "join sep [p] = p"
| "join sep (p # q # ps) = p @ sep # join sep (q # ps)"

definition blank :: "pystr \<Rightarrow> bool" where
  "blank slot \<longleftrightarrow> strip slot = []"

definition run_after :: "pystr list \<Rightarrow> nat \<Rightarrow> nat" where
  "run_after slots i = length (takeWhile blank (drop (Suc i) slots))"

definition decoded_at :: "pystr list \<Rightarrow> nat \<Rightarrow> parsed_event list" where
  "decoded_at slots i =
     (if \<not> blank (slots ! i) \<and> slot_notes (strip (slots ! i)) \<noteq> []
      then [\<lparr>ev_notes = slot_notes (strip (slots ! i)),
             ev_duration = 1 + int (run_after slots i)\<rparr>]
      else [])"

text \<open>
  A merged sequence as the pipeline builds it from decoded events of duration 1 or
  more: every note has a chord and a duration of at least 1, and no rest is negative.
\<close>

definition timed_ok :: "event list \<Rightarrow> bool" where
  "timed_ok evs =
     list_all (\<lambda>e. case e of Note ns d \<Rightarrow> ns \<noteq> [] \<and> 1 \<le> d
                         | Sustain ns d \<Rightarrow> False
                         | Rest d \<Rightarrow> 0 \<le> d) evs"

text \<open>
  The states of the post-validator in which no release has been recorded as short;
  \<open>settled\<close> after the note-ons, \<open>released\<close> half a beat or more after them.
\<close>

definition settled :: "vstate \<Rightarrow> bool" where
  "settled st \<longleftrightarrow>
     last_note_off_time st = Map.empty \<and>
     (\<forall>p t. notes_on st p = Some t \<longrightarrow> t \<le> absolute_time st)"

definition released :: "vstate \<Rightarrow> bool" where
  "released st \<longleftrightarrow>
     last_note_off_time st = Map.empty \<and>
     (\<forall>p t. notes_on st p = Some t \<longrightarrow> t + 240 \<le> absolute_time st)"

text \<open>
  The re-trigger of the specification, on one track. \<open>time_at tr n\<close> is the absolute
  time of message \<open>n\<close>, the sum of the delta times up to it. A note-on has a velocity
  above 0; a note-off is a note-off message or a note-on of velocity 0. The pitch \<open>p\<close>
  is sounding from \<open>k\<close> at \<open>i\<close> when message \<open>k\<close> is a note-on of \<open>p\<close> and no message
  between the two is a note-on or note-off of \<open>p\<close>: the note-on a note-off at \<open>i\<close> closes.
  A release at \<open>i\<close> is short when its note was held for less than half a beat, and
  message \<open>j\<close> re-triggers when it is a note-on less than half a beat after an earlier
  short release of its pitch.
\<close>

definition time_at :: "message list \<Rightarrow> nat \<Rightarrow> int" where
  "time_at tr n = sum_list (map time (take (Suc n) tr))"

fun is_on :: "int \<Rightarrow> message \<Rightarrow> bool" where
  "is_on p (NoteOn q v t) = (q = p \<and> 0 < v)"
| "is_on p m = False"

fun is_off :: "int \<Rightarrow> message \<Rightarrow> bool" where
  "is_off p (NoteOff q v t) = (q = p)"
| "is_off p (NoteOn q v t) = (q = p \<and> v = 0)"
| "is_off p m = False"

definition sounding_from :: "message list \<Rightarrow> int \<Rightarrow> nat \<Rightarrow> nat \<Rightarrow> bool" where
  "sounding_from tr p k i \<longleftrightarrow>
     k < i \<and> is_on p (tr ! k) \<and> (\<forall>l \<in> {k<..<i}. \<not> is_on p (tr ! l) \<and> \<not> is_off p (tr ! l))"

definition short_release :: "int \<Rightarrow> message list \<Rightarrow> int \<Rightarrow> nat \<Rightarrow> bool" where
  "short_release tpb tr p i \<longleftrightarrow>
     is_off p (tr ! i) \<and>
     (\<exists>k \<in> {..<i}. sounding_from tr p k i \<and> 2 * (time_at tr i - time_at tr k) < tpb)"

definition retrigger_at :: "int \<Rightarrow> message list \<Rightarrow> nat \<Rightarrow> bool" where
  "retrigger_at tpb tr j \<longleftrightarrow>
     is_on (pitch (tr ! j)) (tr ! j) \<and>
     (\<exists>i \<in> {..<j}. short_release tpb tr (pitch (tr ! j)) i \<and>
                    2 * (time_at tr j - time_at tr i) < tpb)"

definition retrigger :: "int \<Rightarrow> message list \<Rightarrow> bool" where
  "retrigger tpb tr \<longleftrightarrow> (\<exists>j \<in> {..<length tr}. retrigger_at tpb tr j)"

text \<open>What the validator's state holds after the first \<open>n\<close> messages of a track.\<close>

definition replay_inv :: "int \<Rightarrow> message list \<Rightarrow> nat \<Rightarrow> vstate \<Rightarrow> bool" where
  "replay_inv tpb tr n st \<longleftrightarrow>
     absolute_time st = sum_list (map time (take n tr)) \<and>
     (\<forall>p t. notes_on st p = Some t \<longleftrightarrow> (\<exists>k. sounding_from tr p k n \<and> t = time_at tr k)) \<and>
     (\<forall>p t. last_note_off_time st p = Some t \<longrightarrow>
            (\<exists>i < n. short_release tpb tr p i \<and> t = time_at tr i)) \<and>
     (\<forall>p i. i < n \<and> short_release tpb tr p i \<longrightarrow>
            (\<exists>t. last_note_off_time st p = Some t \<and> time_at tr i \<le> t))"

text \<open>
  The file with an end-of-track marker of delta time 0 at the end of each track, which
  a MIDI library adds when it writes a file.
\<close>

definition with_end_of_track :: "midi_file \<Rightarrow> midi_file" where
  "with_end_of_track mid = mid\<lparr>tracks := map (\<lambda>tr. tr @ [OtherMessage 0]) (tracks mid)\<rparr>"

section \<open>Properties\<close>

subsection \<open>The pitch table\<close>

lemma table_keys: "map fst NUMBER_TO_MIDI_MAP = map decimal [1..<31]"
  by (simp add: NUMBER_TO_MIDI_MAP_def S_def upt_rec decimal.simps)

lemma table_values: "map snd NUMBER_TO_MIDI_MAP = tabulated_pitches"
  by (simp add: NUMBER_TO_MIDI_MAP_def tabulated_pitches_def)

lemma table_distinct: "distinct (map fst NUMBER_TO_MIDI_MAP)"
  by (simp add: NUMBER_TO_MIDI_MAP_def S_def)

lemma table_lookup:
  assumes "1 \<le> n" and "n \<le> 30"
  shows "map_of NUMBER_TO_MIDI_MAP (decimal n) = Some (tabulated_pitches ! (n - 1))"
proof -
  let ?ks = "map fst NUMBER_TO_MIDI_MAP" and ?vs = "map snd NUMBER_TO_MIDI_MAP"
  have len: "length ?ks = 30" by (simp add: NUMBER_TO_MIDI_MAP_def)
  have k: "?ks ! (n - 1) = decimal n"
    using assms by (simp add: table_keys)
  have "map_of (zip ?ks ?vs) (?ks ! (n - 1)) = Some (?vs ! (n - 1))"
    using assms len by (intro map_of_zip_nth table_distinct) simp_all
  then have "map_of NUMBER_TO_MIDI_MAP (?ks ! (n - 1)) = Some (?vs ! (n - 1))"
    by (simp only: zip_map_fst_snd)
  then show ?thesis
    by (simp only: k table_values)
qed

lemma table_miss:
  assumes "\<forall>n. 1 \<le> n \<and> n \<le> 30 \<longrightarrow> tok \<noteq> decimal n"
  shows "map_of NUMBER_TO_MIDI_MAP tok = None"
proof -
  have "tok \<notin> set (map decimal [1..<31])"
    using assms by auto
  then have "tok \<notin> fst ` set NUMBER_TO_MIDI_MAP"
    using table_keys by (metis set_map)
  then show ?thesis by (simp add: map_of_eq_None_iff)
qed

lemma strip_padded:
  assumes l: "\<forall>c \<in> set l. isspace c" and r: "\<forall>c \<in> set r. isspace c"
    and w: "w \<noteq> []" "\<not> isspace (hd w)" "\<not> isspace (last w)"
  shows "strip (l @ w @ r) = w"
proof -
  have "dropWhile isspace (l @ w @ r) = dropWhile isspace (w @ r)"
    by (rule dropWhile_append2) (use l in auto)
  also have "\<dots> = w @ r"
    using w by (cases w) simp_all
  finally have d1: "dropWhile isspace (l @ w @ r) = w @ r" .
  have "dropWhile isspace (rev r @ rev w) = dropWhile isspace (rev w)"
    by (rule dropWhile_append2) (use r in auto)
  also have "\<dots> = rev w"
    using w by (cases w rule: rev_cases) simp_all
  finally have d2: "dropWhile isspace (rev r @ rev w) = rev w" .
  show ?thesis by (simp add: strip_def d1 d2)
qed

lemma decimal_shape:
  assumes "1 \<le> n" and "n \<le> 30"
  shows "decimal n \<noteq> [] \<and> \<not> isspace (hd (decimal n)) \<and> \<not> isspace (last (decimal n))"
proof -
  have "\<forall>w \<in> set (map decimal [1..<31]). w \<noteq> [] \<and> \<not> isspace (hd w) \<and> \<not> isspace (last w)"
    by (simp add: upt_rec decimal.simps isspace_def)
  moreover have "decimal n \<in> set (map decimal [1..<31])"
    using assms by auto
  ultimately show ?thesis by blast
qed

lemma slot_notes_concat:
  "slot_notes content =
     concat (map (\<lambda>tok. case fst (number_to_midi tok) of None \<Rightarrow> [] | Some p \<Rightarrow> [p])
                 (split_ws content))"
proof -
  have "map the (filter (\<lambda>n. n \<noteq> None) (map f toks))
          = concat (map (\<lambda>tok. case f tok of None \<Rightarrow> [] | Some p \<Rightarrow> [p]) toks)"
    for f :: "pystr \<Rightarrow> int option" and toks
    by (induction toks) (auto split: option.splits)
  then show ?thesis by (simp add: slot_notes_def)
qed

text \<open>
  C10. For the degree strings 1 to 30, with whitespace around them or not, the lookup
  returns the tabulated pitch and prints nothing; for any other token it returns no
  pitch and prints the warning; and the chord of a slot holds the pitches of its tokens
  that have one, in order, the other tokens left out.
\<close>

theorem pitch_table_lookup:
  "(1 \<le> n \<and> n \<le> 30 \<and> strip tok = decimal n \<longrightarrow>
      number_to_midi tok = (Some (tabulated_pitches ! (n - 1)), [])) \<and>
   (1 \<le> n \<and> n \<le> 30 \<and> (\<forall>c \<in> set l. isspace c) \<and> (\<forall>c \<in> set r. isspace c) \<longrightarrow>
      number_to_midi (l @ decimal n @ r) = (Some (tabulated_pitches ! (n - 1)), [])) \<and>
   ((\<forall>m. 1 \<le> m \<and> m \<le> 30 \<longrightarrow> strip tok \<noteq> decimal m) \<longrightarrow>
      number_to_midi tok = (None, [warning (strip tok)])) \<and>
   slot_notes content =
     concat (map (\<lambda>tok. case fst (number_to_midi tok) of None \<Rightarrow> [] | Some p \<Rightarrow> [p])
                 (split_ws content))"
proof (intro conjI impI)
  assume "1 \<le> n \<and> n \<le> 30 \<and> strip tok = decimal n"
  then show "number_to_midi tok = (Some (tabulated_pitches ! (n - 1)), [])"
    by (simp add: number_to_midi_def table_lookup)
next
  assume a: "1 \<le> n \<and> n \<le> 30 \<and> (\<forall>c \<in> set l. isspace c) \<and> (\<forall>c \<in> set r. isspace c)"
  then have "strip (l @ decimal n @ r) = decimal n"
    using decimal_shape [of n] by (intro strip_padded) simp_all
  with a show "number_to_midi (l @ decimal n @ r) = (Some (tabulated_pitches ! (n - 1)), [])"
    by (simp add: number_to_midi_def table_lookup)
next
  assume "\<forall>m. 1 \<le> m \<and> m \<le> 30 \<longrightarrow> strip tok \<noteq> decimal m"
  then have "map_of NUMBER_TO_MIDI_MAP (strip tok) = None" by (rule table_miss)
  then show "number_to_midi tok = (None, [warning (strip tok)])"
    by (simp add: number_to_midi_def)
next
  show "slot_notes content =
     concat (map (\<lambda>tok. case fst (number_to_midi tok) of None \<Rightarrow> [] | Some p \<Rightarrow> [p])
                 (split_ws content))"
    by (rule slot_notes_concat)
qed

theorem pitch_table_lookup_witness:
  "number_to_midi (S '' 29'') = (Some 79, []) \<and>
   number_to_midi (S ''31'') = (None, [warning (S ''31'')]) \<and>
   number_to_midi ([32, 9] @ decimal 7 @ [10]) = (Some 55, []) \<and>
   slot_notes (S ''1 x 30'') = [41, 81]"
proof -
  have s29: "strip (S '' 29'') = decimal 29"
    by (simp add: strip_def S_def isspace_def decimal.simps)
  have s31: "strip (S ''31'') = S ''31''"
    by (simp add: strip_def S_def isspace_def)
  have miss: "\<forall>m. 1 \<le> m \<and> m \<le> 30 \<longrightarrow> strip (S ''31'') \<noteq> decimal m"
  proof (intro allI impI)
    fix m :: nat
    assume "1 \<le> m \<and> m \<le> 30"
    then have "decimal m \<in> set (map decimal [1..<31])" by auto
    then show "strip (S ''31'') \<noteq> decimal m"
      unfolding s31 by (auto simp: upt_rec decimal.simps S_def)
  qed
  have sp: "\<forall>c \<in> set [32, 9::nat]. isspace c" "\<forall>c \<in> set [10::nat]. isspace c"
    by (simp_all add: isspace_def)
  have chord: "slot_notes (S ''1 x 30'') = [41, 81]"
    by (simp add: slot_notes_def split_ws.simps S_def isspace_def number_to_midi_def strip_def
          NUMBER_TO_MIDI_MAP_def)
  show ?thesis
    using pitch_table_lookup [of 29 "S '' 29''" "[]" "[]" "S ''1 x 30''"]
          pitch_table_lookup [of 7 "S ''31''" "[32, 9]" "[10]" "S ''1 x 30''"]
          s29 s31 miss sp chord
    by (simp add: tabulated_pitches_def)
qed

subsection \<open>The decoder\<close>

lemma lookahead_run:
  "j \<le> length slots - 1 \<Longrightarrow>
   lookahead slots j d
     = (j + length (takeWhile blank (drop j (butlast slots))),
        d + int (length (takeWhile blank (drop j (butlast slots)))))"
proof (induction slots j d rule: lookahead.induct)
  case (1 slots j d)
  show ?case
  proof (cases "j < length slots - 1")
    case True
    then have jb: "j < length (butlast slots)" by simp
    then have cons: "drop j (butlast slots) = slots ! j # drop (Suc j) (butlast slots)"
      by (simp add: Cons_nth_drop_Suc [symmetric] nth_butlast)
    show ?thesis
    proof (cases "strip (slots ! j) = []")
      case blank_j: True
      with True "1.IH" have
        "lookahead slots (j + 1) (d + 1)
           = (j + 1 + length (takeWhile blank (drop (j + 1) (butlast slots))),
              d + 1 + int (length (takeWhile blank (drop (j + 1) (butlast slots)))))"
        by simp
      with True blank_j cons show ?thesis
        by (subst lookahead.simps) (simp add: blank_def)
    next
      case False
      with cons show ?thesis
        by (subst lookahead.simps) (simp add: blank_def)
    qed
  next
    case False
    with "1.prems" have "drop j (butlast slots) = []" by simp
    with False show ?thesis
      by (subst lookahead.simps) simp
  qed
qed

lemma run_blank:
  assumes "i < k" and "k \<le> i + run_after slots i"
  shows "k < length slots \<and> blank (slots ! k)"
proof -
  let ?tw = "takeWhile blank (drop (Suc i) slots)"
  from assms have lt: "k - Suc i < length ?tw" by (simp add: run_after_def)
  also have "length ?tw \<le> length (drop (Suc i) slots)" by (rule length_takeWhile_le)
  finally have in_range: "k < length slots" using assms(1) by simp
  from lt have "?tw ! (k - Suc i) \<in> set ?tw" by (rule nth_mem)
  then have "blank (?tw ! (k - Suc i))" by (rule set_takeWhileD [THEN conjunct2])
  moreover have "?tw ! (k - Suc i) = drop (Suc i) slots ! (k - Suc i)"
    using lt by (rule takeWhile_nth)
  moreover have "drop (Suc i) slots ! (k - Suc i) = slots ! k"
    using assms(1) in_range by simp
  ultimately show ?thesis using in_range by simp
qed

lemma decoded_blank_run:
  "concat (map (decoded_at slots) [Suc i..<Suc i + run_after slots i]) = []"
proof -
  have "decoded_at slots k = []" if "k \<in> set [Suc i..<Suc i + run_after slots i]" for k
  proof -
    from that have "i < k" and "k \<le> i + run_after slots i" by auto
    then have "blank (slots ! k)" using run_blank by blast
    then show ?thesis by (simp add: decoded_at_def)
  qed
  then show ?thesis by simp
qed

lemma run_after_bound: "i < length slots \<Longrightarrow> Suc i + run_after slots i \<le> length slots"
proof -
  assume "i < length slots"
  moreover have "run_after slots i \<le> length (drop (Suc i) slots)"
    unfolding run_after_def by (rule length_takeWhile_le)
  ultimately show ?thesis by simp
qed

lemma upt_split: "a \<le> b \<Longrightarrow> b \<le> c \<Longrightarrow> [a..<c] = [a..<b] @ [b..<c]"
  using upt_add_eq_append [of a b "c - b"] by simp

lemma parse_loop_closed:
  "parse_loop slots i acc
     = acc @ concat (map (decoded_at (butlast slots)) [i..<length (butlast slots)])"
proof (induction slots i acc rule: parse_loop.induct)
  case (1 slots i acc)
  let ?B = "butlast slots"
  show ?case
  proof (cases "i < length slots - 1")
    case False
    then show ?thesis by (subst parse_loop.simps) simp
  next
    case True
    then have iB: "i < length ?B" by simp
    then have nth: "slots ! i = ?B ! i" by (simp add: nth_butlast)
    have split1: "[i..<length ?B] = i # [Suc i..<length ?B]"
      using iB by (simp add: upt_conv_Cons)
    show ?thesis
    proof (cases "strip (slots ! i) = []")
      case blank_i: True
      then have here: "decoded_at ?B i = []"
        by (simp add: decoded_at_def blank_def nth)
      from True blank_i "1.IH"(2) have
        "parse_loop slots (i + 1) acc
           = acc @ concat (map (decoded_at ?B) [i + 1..<length ?B])"
        by simp
      with True blank_i here split1 show ?thesis
        by (subst parse_loop.simps) simp
    next
      case chord: False
      let ?r = "run_after ?B i"
      let ?j = "Suc i + ?r"
      let ?ns = "slot_notes (strip (slots ! i))"
      let ?acc' = "if ?ns \<noteq> [] then acc @ [\<lparr>ev_notes = ?ns, ev_duration = 1 + int ?r\<rparr>] else acc"
      have la: "lookahead slots (i + 1) 1 = (?j, 1 + int ?r)"
        using True by (subst lookahead_run) (simp_all add: run_after_def)
      have here: "acc @ decoded_at ?B i = ?acc'"
        using chord by (simp add: decoded_at_def blank_def nth)
      have jB: "?j \<le> length ?B" using iB by (rule run_after_bound)
      have "[Suc i..<length ?B] = [Suc i..<?j] @ [?j..<length ?B]"
        by (rule upt_split) (use jB in simp_all)
      then have split2: "concat (map (decoded_at ?B) [Suc i..<length ?B])
                           = concat (map (decoded_at ?B) [?j..<length ?B])"
        using decoded_blank_run [of ?B i] by simp
      have "parse_loop slots ?j ?acc'
              = ?acc' @ concat (map (decoded_at ?B) [?j..<length ?B])"
        by (rule "1.IH"(1) [OF True refl chord refl refl la [symmetric]])
      then have "parse_loop slots i acc
              = ?acc' @ concat (map (decoded_at ?B) [?j..<length ?B])"
        using True chord la by (subst parse_loop.simps) (simp add: Let_def)
      also have "\<dots> = (acc @ decoded_at ?B i) @ concat (map (decoded_at ?B) [Suc i..<length ?B])"
        by (simp only: here split2)
      also have "\<dots> = acc @ concat (map (decoded_at ?B) [i..<length ?B])"
        unfolding split1 by simp
      finally show ?thesis .
    qed
  qed
qed


lemma decoded_at_tl:
  "slots \<noteq> [] \<Longrightarrow> decoded_at slots (Suc i) = decoded_at (tl slots) i"
  by (cases slots) (simp_all add: decoded_at_def run_after_def)

text \<open>The source strips the text, then delimits it.\<close>

lemma normalize_delimited: "normalize text = delimited (strip text)"
  by (simp add: normalize_def delimited_def startswith_def endswith_def Let_def)

lemma parse_closed_form:
  "parse_number_string text
     = concat (map (decoded_at (slots_of (strip text))) [0..<length (slots_of (strip text))])"
proof -
  let ?pieces = "split_sep 47 (delimited (strip text))"
  let ?B = "butlast ?pieces"
  have inner: "slots_of (strip text) = tl ?B"
    by (simp add: slots_of_def butlast_tl)
  have p: "parse_number_string text = concat (map (decoded_at ?B) [1..<length ?B])"
    by (simp add: parse_number_string_def normalize_delimited parse_loop_closed Let_def)
  show ?thesis
  proof (cases "?B = []")
    case True
    with p inner show ?thesis by simp
  next
    case False
    then have "[1..<length ?B] = map Suc [0..<length (tl ?B)]"
      by (cases ?B) (simp_all add: map_Suc_upt)
    with p have "parse_number_string text
               = concat (map (\<lambda>i. decoded_at ?B (Suc i)) [0..<length (tl ?B)])"
      by (simp add: comp_def)
    also have "\<dots> = concat (map (decoded_at (tl ?B)) [0..<length (tl ?B)])"
      using False by (simp add: decoded_at_tl)
    finally show ?thesis by (simp only: inner)
  qed
qed

lemma run_owner:
  assumes "i < i'" and "\<not> blank (slots ! i')"
    and "i < k" "k \<le> i + run_after slots i" and "i' < k"
  shows False
proof -
  from assms have "i < i'" and "i' \<le> i + run_after slots i" by simp_all
  then have "blank (slots ! i')" using run_blank by blast
  with assms(2) show False by simp
qed

lemma split_sep_length: "length (split_sep sep s) = Suc (length (filter (\<lambda>c. c = sep) s))"
proof (induction s)
  case Nil
  show ?case by simp
next
  case (Cons c s)
  then have "split_sep sep s \<noteq> []" by auto
  with Cons show ?case by simp
qed

lemma split_sep_last:
  "s \<noteq> [] \<Longrightarrow> last s = sep \<Longrightarrow> last (split_sep sep s) = []"
proof (induction s)
  case Nil
  then show ?case by simp
next
  case (Cons c s)
  show ?case
  proof (cases "s = []")
    case True
    with Cons.prems show ?thesis by simp
  next
    case False
    with Cons have IH: "last (split_sep sep s) = []" by simp
    from False Cons.prems have "sep \<in> set s" by (metis last.simps last_in_set)
    then have "filter (\<lambda>c. c = sep) s \<noteq> []" by (simp add: filter_empty_conv)
    then have "2 \<le> length (split_sep sep s)"
      by (cases "filter (\<lambda>c. c = sep) s") (simp_all add: split_sep_length)
    then obtain x y ys where r: "split_sep sep s = x # y # ys"
      by (cases "split_sep sep s"; cases "tl (split_sep sep s)") auto
    with IH show ?thesis by simp
  qed
qed

lemma delimited_shape:
  "delimited s \<noteq> [] \<and> hd (delimited s) = 47 \<and> last (delimited s) = 47"
  by (auto simp: delimited_def Let_def)

lemma slots_shape: "split_sep 47 (delimited s) = [] # slots_of s @ [[]]"
proof -
  let ?s = "delimited s"
  let ?xs = "split_sep 47 ?s"
  from delimited_shape [of s] obtain cs where s: "?s = 47 # cs"
    by (cases ?s) auto
  then have hd: "?xs = [] # split_sep 47 cs" by simp
  from delimited_shape [of s] have "47 \<in> set ?s" by (metis last_in_set)
  then have "filter (\<lambda>c. c = 47) ?s \<noteq> []" by (simp add: filter_empty_conv)
  then have "2 \<le> length ?xs"
    by (cases "filter (\<lambda>c. c = 47) ?s") (simp_all add: split_sep_length)
  with hd have ne: "split_sep 47 cs \<noteq> []" by auto
  from delimited_shape [of s] have "last ?xs = []" by (intro split_sep_last) simp_all
  with hd ne have "last (split_sep 47 cs) = []" by simp
  with ne have "split_sep 47 cs = butlast (split_sep 47 cs) @ [[]]"
    by (metis append_butlast_last_id)
  with hd show ?thesis by (simp add: slots_of_def)
qed

lemma split_sep_nonempty: "split_sep sep s \<noteq> []"
  by (cases s) simp_all

lemma join_first: "join sep ((c # p) # ps) = c # join sep (p # ps)"
  by (cases ps) simp_all

lemma join_split_sep: "join sep (split_sep sep s) = s"
proof (induction s)
  case Nil
  show ?case by simp
next
  case (Cons c s)
  obtain q qs where r: "split_sep sep s = q # qs"
    using split_sep_nonempty [of sep s] by (cases "split_sep sep s") auto
  with Cons show ?case by (simp add: join_first)
qed

lemma split_sep_pieces: "p \<in> set (split_sep sep s) \<Longrightarrow> sep \<notin> set p"
proof (induction s arbitrary: p)
  case Nil
  then show ?case by simp
next
  case (Cons c s)
  obtain q qs where r: "split_sep sep s = q # qs"
    using split_sep_nonempty [of sep s] by (cases "split_sep sep s") auto
  with Cons.IH have "sep \<notin> set q" and "\<And>x. x \<in> set qs \<Longrightarrow> sep \<notin> set x" by simp_all
  with Cons.prems r show ?case by (auto split: if_splits)
qed

lemma last_dropWhile: "dropWhile P xs \<noteq> [] \<Longrightarrow> last (dropWhile P xs) = last xs"
  by (induction xs) (auto split: if_splits)

lemma strip_spec:
  "(\<exists>l r. text = l @ strip text @ r \<and> list_all isspace l \<and> list_all isspace r) \<and>
   (strip text \<noteq> [] \<longrightarrow> \<not> isspace (hd (strip text)) \<and> \<not> isspace (last (strip text)))"
proof
  let ?rest = "dropWhile isspace text"
  let ?l = "takeWhile isspace text"
  let ?r = "rev (takeWhile isspace (rev ?rest))"
  have "rev (dropWhile isspace (rev ?rest)) @ ?r
          = rev (takeWhile isspace (rev ?rest) @ dropWhile isspace (rev ?rest))"
    by (simp only: rev_append)
  also have "\<dots> = rev (rev ?rest)" by (simp only: takeWhile_dropWhile_id)
  also have "\<dots> = ?rest" by (simp only: rev_rev_ident)
  finally have "?rest = strip text @ ?r" by (simp only: strip_def)
  moreover have "text = ?l @ ?rest" by simp
  ultimately have "text = ?l @ strip text @ ?r" by simp
  moreover have "list_all isspace ?l"
    by (auto simp: list_all_iff dest: set_takeWhileD)
  moreover have "list_all isspace ?r"
    by (auto simp: list_all_iff dest: set_takeWhileD)
  ultimately show "\<exists>l r. text = l @ strip text @ r \<and> list_all isspace l \<and> list_all isspace r"
    by blast
  show "strip text \<noteq> [] \<longrightarrow> \<not> isspace (hd (strip text)) \<and> \<not> isspace (last (strip text))"
  proof
    assume ne: "strip text \<noteq> []"
    then have d: "dropWhile isspace (rev ?rest) \<noteq> []" by (simp add: strip_def)
    have rest: "?rest \<noteq> []"
    proof
      assume "?rest = []"
      then have "dropWhile isspace (rev ?rest) = []"
        by (simp only: rev.simps dropWhile.simps)
      with d show False by contradiction
    qed
    have "last (strip text) = hd (dropWhile isspace (rev ?rest))"
      using d by (simp add: strip_def last_rev)
    moreover have "\<not> isspace (hd (dropWhile isspace (rev ?rest)))"
      using d by (rule hd_dropWhile)
    moreover have "hd (strip text) = last (dropWhile isspace (rev ?rest))"
      using d by (simp add: strip_def hd_rev)
    moreover have "last (dropWhile isspace (rev ?rest)) = hd ?rest"
      using d rest by (simp add: last_dropWhile last_rev)
    moreover have "\<not> isspace (hd ?rest)"
      using rest by (rule hd_dropWhile)
    ultimately show "\<not> isspace (hd (strip text)) \<and> \<not> isspace (last (strip text))"
      by simp
  qed
qed

text \<open>
  C5, as the code has it. The source removes the whitespace around the whole text
  before it delimits it, so the slots are those of the stripped text: \<open>strip text\<close> is
  the text without the whitespace before and after it, and the slots, joined with
  delimiters between an empty first and last piece, are the delimited stripped text; no
  slot holds a delimiter. The decoded sequence holds, slot by slot, one event for each
  slot that has a chord with a valid pitch, and its duration is 1 plus the number of
  blank slots that follow the slot immediately. The slots a chord consumes are blank
  slots, and no slot is consumed by two chords. The text \<open>/1//2/\<close> decodes to pitch 41
  with duration 2, then pitch 43 with duration 1.
\<close>

theorem decoder_lookahead:
  "parse_number_string text
     = concat (map (decoded_at (slots_of (strip text))) [0..<length (slots_of (strip text))]) \<and>
   (\<forall>i i' k. \<not> blank (slots_of (strip text) ! i) \<and> \<not> blank (slots_of (strip text) ! i') \<and>
        i < k \<and> k \<le> i + run_after (slots_of (strip text)) i \<and>
        i' < k \<and> k \<le> i' + run_after (slots_of (strip text)) i'
      \<longrightarrow> i = i') \<and>
   (\<forall>i k. i < k \<and> k \<le> i + run_after (slots_of (strip text)) i
      \<longrightarrow> k < length (slots_of (strip text)) \<and> blank (slots_of (strip text) ! k)) \<and>
   parse_number_string (S ''/1//2/'')
     = [\<lparr>ev_notes = [41], ev_duration = 2\<rparr>, \<lparr>ev_notes = [43], ev_duration = 1\<rparr>] \<and>
   (\<exists>l r. text = l @ strip text @ r \<and> list_all isspace l \<and> list_all isspace r) \<and>
   (strip text \<noteq> [] \<longrightarrow> \<not> isspace (hd (strip text)) \<and> \<not> isspace (last (strip text))) \<and>
   join 47 ([] # slots_of s @ [[]]) = delimited s \<and>
   (\<forall>p \<in> set (slots_of s). 47 \<notin> set p)"
proof (intro conjI allI impI ballI)
  show "join 47 ([] # slots_of s @ [[]]) = delimited s"
    using join_split_sep [of 47 "delimited s"] by (simp only: slots_shape)
next
  fix p assume "p \<in> set (slots_of s)"
  then have "p \<in> set (split_sep 47 (delimited s))" by (simp add: slots_shape)
  then show "47 \<notin> set p" by (rule split_sep_pieces)
next
  show "\<exists>l r. text = l @ strip text @ r \<and> list_all isspace l \<and> list_all isspace r"
    using strip_spec by blast
next
  assume "strip text \<noteq> []"
  with strip_spec [of "text"]
  show "\<not> isspace (hd (strip text))" and "\<not> isspace (last (strip text))" by blast+
next
  show "parse_number_string text
     = concat (map (decoded_at (slots_of (strip text))) [0..<length (slots_of (strip text))])"
    by (rule parse_closed_form)
next
  fix i i' k
  assume a: "\<not> blank (slots_of (strip text) ! i) \<and> \<not> blank (slots_of (strip text) ! i') \<and>
        i < k \<and> k \<le> i + run_after (slots_of (strip text)) i \<and>
        i' < k \<and> k \<le> i' + run_after (slots_of (strip text)) i'"
  show "i = i'"
  proof (rule ccontr)
    assume "i \<noteq> i'"
    then consider "i < i'" | "i' < i" by arith
    then show False
    proof cases
      case 1
      with a show False using run_owner [of i i' "slots_of (strip text)" k] by simp
    next
      case 2
      with a show False using run_owner [of i' i "slots_of (strip text)" k] by simp
    qed
  qed
next
  fix i k
  assume "i < k \<and> k \<le> i + run_after (slots_of (strip text)) i"
  then have "k < length (slots_of (strip text)) \<and> blank (slots_of (strip text) ! k)"
    using run_blank by blast
  then show "k < length (slots_of (strip text))" and "blank (slots_of (strip text) ! k)"
    by simp_all
next
  show "parse_number_string (S ''/1//2/'')
     = [\<lparr>ev_notes = [41], ev_duration = 2\<rparr>, \<lparr>ev_notes = [43], ev_duration = 1\<rparr>]"
    by (simp add: S_def isspace_def strip_def startswith_def endswith_def normalize_def
          parse_number_string_def slot_notes_def number_to_midi_def NUMBER_TO_MIDI_MAP_def
          parse_loop.simps lookahead.simps split_ws.simps)
qed

theorem decoder_lookahead_witness:
  "strip ([32] @ S ''/1 16// /x/ 2/'' @ [10]) = S ''/1 16// /x/ 2/'' \<and>
   slots_of (S ''/1 16// /x/ 2/'') = [S ''1 16'', [], S '' '', S ''x'', S '' 2''] \<and>
   run_after (slots_of (S ''/1 16// /x/ 2/'')) 0 = 2 \<and>
   parse_number_string ([32] @ S ''/1 16// /x/ 2/'' @ [10])
     = [\<lparr>ev_notes = [41, 65], ev_duration = 3\<rparr>, \<lparr>ev_notes = [43], ev_duration = 1\<rparr>] \<and>
   blank (slots_of (S ''/1 16// /x/ 2/'') ! 2)"
proof -
  have st: "strip ([32] @ S ''/1 16// /x/ 2/'' @ [10]) = S ''/1 16// /x/ 2/''"
    by (simp add: strip_def S_def isspace_def)
  have inner: "slots_of (S ''/1 16// /x/ 2/'') = [S ''1 16'', [], S '' '', S ''x'', S '' 2'']"
    by (simp add: slots_of_def delimited_def S_def)
  have run: "run_after [S ''1 16'', [], S '' '', S ''x'', S '' 2''] 0 = 2"
    by (simp add: run_after_def blank_def S_def isspace_def strip_def)
  have ev: "concat (map (decoded_at [S ''1 16'', [], S '' '', S ''x'', S '' 2''])
                        [0..<length [S ''1 16'', [], S '' '', S ''x'', S '' 2'']])
              = [\<lparr>ev_notes = [41, 65], ev_duration = 3\<rparr>, \<lparr>ev_notes = [43], ev_duration = 1\<rparr>]"
    by (simp add: upt_rec decoded_at_def run_after_def blank_def S_def isspace_def strip_def
          slot_notes_def number_to_midi_def NUMBER_TO_MIDI_MAP_def split_ws.simps)
  note th = decoder_lookahead [of "[32] @ S ''/1 16// /x/ 2/'' @ [10]" "[]", unfolded st]
  from th have "parse_number_string ([32] @ S ''/1 16// /x/ 2/'' @ [10])
     = concat (map (decoded_at (slots_of (S ''/1 16// /x/ 2/'')))
                   [0..<length (slots_of (S ''/1 16// /x/ 2/''))])"
    by (rule conjunct1)
  then have p: "parse_number_string ([32] @ S ''/1 16// /x/ 2/'' @ [10])
     = [\<lparr>ev_notes = [41, 65], ev_duration = 3\<rparr>, \<lparr>ev_notes = [43], ev_duration = 1\<rparr>]"
    by (simp only: inner ev)
  from th have "\<forall>i k. i < k \<and> k \<le> i + run_after (slots_of (S ''/1 16// /x/ 2/'')) i
      \<longrightarrow> k < length (slots_of (S ''/1 16// /x/ 2/''))
          \<and> blank (slots_of (S ''/1 16// /x/ 2/'') ! k)"
    by blast
  then have "0 < (2::nat) \<and> 2 \<le> 0 + run_after (slots_of (S ''/1 16// /x/ 2/'')) 0
      \<longrightarrow> blank (slots_of (S ''/1 16// /x/ 2/'') ! 2)"
    by blast
  then have b: "blank (slots_of (S ''/1 16// /x/ 2/'') ! 2)"
    by (simp add: inner run)
  from st inner run p b show ?thesis by (simp only: simp_thms)
qed

text \<open>
  C5 as stated fails, with the slots of the text itself, delimited without stripping:
  the text \<open>/1/\<close> followed by a newline has the slots \<open>1\<close> and the newline, a blank slot
  right after the chord, so the stated duration is 2; the decoder gives duration 1.
\<close>

theorem decoder_trailing_newline_counterexample:
  "slots_of (S ''/1/'' @ [10]) = [S ''1'', [10]] \<and>
   blank [10] \<and>
   run_after (slots_of (S ''/1/'' @ [10])) 0 = 1 \<and>
   concat (map (decoded_at (slots_of (S ''/1/'' @ [10])))
               [0..<length (slots_of (S ''/1/'' @ [10]))])
     = [\<lparr>ev_notes = [41], ev_duration = 2\<rparr>] \<and>
   parse_number_string (S ''/1/'' @ [10]) = [\<lparr>ev_notes = [41], ev_duration = 1\<rparr>] \<and>
   parse_number_string (S ''/1/'' @ [10])
     \<noteq> concat (map (decoded_at (slots_of (S ''/1/'' @ [10])))
                  [0..<length (slots_of (S ''/1/'' @ [10]))])"
proof -
  have sl: "slots_of (S ''/1/'' @ [10]) = [S ''1'', [10]]"
    by (simp add: slots_of_def delimited_def S_def)
  have bl: "blank [10]"
    by (simp add: blank_def strip_def isspace_def)
  have run: "run_after [S ''1'', [10]] 0 = 1"
    by (simp add: run_after_def blank_def S_def isspace_def strip_def)
  have ev: "concat (map (decoded_at [S ''1'', [10]]) [0..<length [S ''1'', [10]]])
              = [\<lparr>ev_notes = [41], ev_duration = 2\<rparr>]"
    by (simp add: upt_rec decoded_at_def run_after_def blank_def S_def isspace_def strip_def
          slot_notes_def number_to_midi_def NUMBER_TO_MIDI_MAP_def split_ws.simps)
  have p: "parse_number_string (S ''/1/'' @ [10]) = [\<lparr>ev_notes = [41], ev_duration = 1\<rparr>]"
    by (simp add: S_def isspace_def strip_def startswith_def endswith_def normalize_def
          parse_number_string_def slot_notes_def number_to_midi_def NUMBER_TO_MIDI_MAP_def
          parse_loop.simps lookahead.simps split_ws.simps)
  show ?thesis
    unfolding sl p ev using bl run by simp
qed

subsection \<open>The pre-validator\<close>

lemma validate_from_iff:
  "validate_from evs ixs \<longleftrightarrow> \<not> (\<exists>i \<in> set ixs. adjacent_clash evs i)"
  by (induction ixs) (auto simp: adjacent_clash_def)

text \<open>
  C6. Pre-validation returns False exactly when some adjacent pair of decoded events, both
  of duration 1, shares a pitch. It fails on two adjacent events of pitch 60 and duration
  1, and succeeds when the first of them has duration 2.
\<close>

theorem pre_validation_iff:
  "(validate_events_pre_creation evs = False \<longleftrightarrow>
      (\<exists>i. i + 1 < length evs \<and> adjacent_clash evs i))
   \<and> validate_events_pre_creation
        [\<lparr>ev_notes = [60], ev_duration = 1\<rparr>, \<lparr>ev_notes = [60], ev_duration = 1\<rparr>] = False
   \<and> validate_events_pre_creation
        [\<lparr>ev_notes = [60], ev_duration = 2\<rparr>, \<lparr>ev_notes = [60], ev_duration = 1\<rparr>] = True"
proof (intro conjI)
  have "(\<exists>i \<in> set [0..<length evs - 1]. adjacent_clash evs i)
        \<longleftrightarrow> (\<exists>i. i + 1 < length evs \<and> adjacent_clash evs i)"
    by (auto simp: less_diff_conv)
  then show "validate_events_pre_creation evs = False \<longleftrightarrow>
      (\<exists>i. i + 1 < length evs \<and> adjacent_clash evs i)"
    by (simp add: validate_events_pre_creation_def validate_from_iff)
next
  show "validate_events_pre_creation
        [\<lparr>ev_notes = [60], ev_duration = 1\<rparr>, \<lparr>ev_notes = [60], ev_duration = 1\<rparr>] = False"
    by (simp add: validate_events_pre_creation_def)
next
  show "validate_events_pre_creation
        [\<lparr>ev_notes = [60], ev_duration = 2\<rparr>, \<lparr>ev_notes = [60], ev_duration = 1\<rparr>] = True"
    by (simp add: validate_events_pre_creation_def)
qed

subsection \<open>Clef splitting\<close>

lemma split_events_foldl:
  "foldl split_step (tr, ba) evs =
     (tr @ map (\<lambda>ev. raw_event (filter (\<lambda>n. n \<ge> 60) (ev_notes ev)) (ev_duration ev)) evs,
      ba @ map (\<lambda>ev. raw_event (filter (\<lambda>n. n < 60) (ev_notes ev)) (ev_duration ev)) evs)"
  by (induction evs arbitrary: tr ba) (simp_all add: split_step_def Let_def)

lemma split_events_map:
  "split_events evs =
     (map (\<lambda>ev. raw_event (filter (\<lambda>n. n \<ge> 60) (ev_notes ev)) (ev_duration ev)) evs,
      map (\<lambda>ev. raw_event (filter (\<lambda>n. n < 60) (ev_notes ev)) (ev_duration ev)) evs)"
  by (simp add: split_events_def split_events_foldl)

text \<open>
  C9. Every decoded event gives one raw event to each clef, with its duration: both raw
  sequences have the length of the decoded sequence. The pitches from 60 on, the pitch of
  degree 11, go to the treble in written order, those below 60 to the bass; the raw event
  is a note when its subset is not empty and a sustain otherwise. The chord [55, 65] splits
  into bass [55] and treble [65].
\<close>

theorem clef_splitting:
  "length (fst (split_events evs)) = length evs \<and>
   length (snd (split_events evs)) = length evs \<and>
   (\<forall>i < length evs.
      fst (split_events evs) ! i =
        (if filter (\<lambda>n. n \<ge> 60) (ev_notes (evs ! i)) \<noteq> []
         then Note (filter (\<lambda>n. n \<ge> 60) (ev_notes (evs ! i))) (ev_duration (evs ! i))
         else Sustain [] (ev_duration (evs ! i))) \<and>
      snd (split_events evs) ! i =
        (if filter (\<lambda>n. n < 60) (ev_notes (evs ! i)) \<noteq> []
         then Note (filter (\<lambda>n. n < 60) (ev_notes (evs ! i))) (ev_duration (evs ! i))
         else Sustain [] (ev_duration (evs ! i))) \<and>
      duration_of (fst (split_events evs) ! i) = ev_duration (evs ! i) \<and>
      duration_of (snd (split_events evs) ! i) = ev_duration (evs ! i)) \<and>
   fst (number_to_midi (S ''11'')) = Some 60 \<and>
   split_events [\<lparr>ev_notes = [55, 65], ev_duration = d\<rparr>] = ([Note [65] d], [Note [55] d])"
proof (intro conjI allI impI)
  show "fst (number_to_midi (S ''11'')) = Some 60"
    by (simp add: number_to_midi_def strip_def isspace_def S_def NUMBER_TO_MIDI_MAP_def)
qed (simp_all add: split_events_map raw_event_def)

theorem clef_splitting_witness:
  "split_events [\<lparr>ev_notes = [55, 65], ev_duration = 2\<rparr>, \<lparr>ev_notes = [41], ev_duration = 1\<rparr>]
     = ([Note [65] 2, Sustain [] 1], [Note [55] 2, Note [41] 1]) \<and>
   fst (split_events [\<lparr>ev_notes = [55, 65], ev_duration = 2\<rparr>, \<lparr>ev_notes = [41], ev_duration = 1\<rparr>]) ! 1
     = Sustain [] 1"
  using clef_splitting [of "[\<lparr>ev_notes = [55, 65], ev_duration = 2\<rparr>, \<lparr>ev_notes = [41], ev_duration = 1\<rparr>]"]
  by (simp add: split_events_map raw_event_def)

subsection \<open>Sustain merging\<close>

lemma sum_butlast_add_duration:
  "merged \<noteq> [] \<Longrightarrow>
   sum_list (map duration_of (butlast merged)) + duration_of (add_duration (last merged) d)
     = sum_list (map duration_of merged) + d"
proof -
  assume ne: "merged \<noteq> []"
  have d: "duration_of (add_duration e d) = duration_of e + d" for e
    by (cases e) simp_all
  have "sum_list (map duration_of merged)
        = sum_list (map duration_of (butlast merged @ [last merged]))"
    using ne by simp
  also have "\<dots> = sum_list (map duration_of (butlast merged)) + duration_of (last merged)"
    by simp
  finally show ?thesis by (simp add: d)
qed

lemma merge_step_sum:
  "(case e of Rest d \<Rightarrow> False | _ \<Rightarrow> True) \<Longrightarrow>
   sum_list (map duration_of (merge_step merged e))
     = sum_list (map duration_of merged) + duration_of e"
  by (cases e) (simp_all add: sum_butlast_add_duration)

lemma merge_step_length: "length (merge_step merged e) \<le> Suc (length merged)"
  by (cases e) simp_all

lemma merge_loop_sum:
  "raw_ok raw \<Longrightarrow>
   sum_list (map duration_of (foldl merge_step merged raw))
     = sum_list (map duration_of merged) + sum_list (map duration_of raw)"
  by (induction raw arbitrary: merged) (simp_all add: raw_ok_def merge_step_sum)

lemma merge_loop_length:
  "length (foldl merge_step merged raw) \<le> length merged + length raw"
proof (induction raw arbitrary: merged)
  case Nil
  show ?case by simp
next
  case (Cons e raw)
  have "length (foldl merge_step (merge_step merged e) raw)
          \<le> length (merge_step merged e) + length raw"
    by (rule Cons.IH)
  with merge_step_length [of merged e] show ?case by simp
qed

text \<open>The sequences the splitter builds are raw sequences.\<close>

lemma split_events_raw_ok:
  "raw_ok (fst (split_events evs)) \<and> raw_ok (snd (split_events evs))"
  by (induction evs) (simp_all add: split_events_map raw_ok_def raw_event_def)

text \<open>
  C4. Merging a raw clef sequence keeps the sum of the durations and gives at most as many
  events as it was given.
\<close>

theorem merge_duration_count:
  "raw_ok raw \<Longrightarrow>
   sum_list (map duration_of (merge_sustain_events raw)) = sum_list (map duration_of raw) \<and>
   length (merge_sustain_events raw) \<le> length raw"
  using merge_loop_sum [of raw "[]"] merge_loop_length [of "[]" raw]
  by (simp add: merge_sustain_events_def)

theorem merge_duration_count_witness:
  "raw_ok [Sustain [] 1, Note [65] 2, Sustain [] 3, Sustain [] 1, Note [60] 1] \<and>
   merge_sustain_events [Sustain [] 1, Note [65] 2, Sustain [] 3, Sustain [] 1, Note [60] 1]
     = [Rest 1, Note [65] 6, Note [60] 1] \<and>
   sum_list (map duration_of
      (merge_sustain_events [Sustain [] 1, Note [65] 2, Sustain [] 3, Sustain [] 1, Note [60] 1])) = 8"
  using merge_duration_count [of "[Sustain [] 1, Note [65] 2, Sustain [] 3, Sustain [] 1, Note [60] 1]"]
  by (simp add: raw_ok_def merge_sustain_events_def)

lemma merge_sustain_snoc:
  "merge_sustain_events (raw @ [e]) = merge_step (merge_sustain_events raw) e"
  by (simp add: merge_sustain_events_def)

lemma merge_step_append:
  "acc2 \<noteq> [] \<Longrightarrow> merge_step (acc1 @ acc2) e = acc1 @ merge_step acc2 e"
  by (cases e) (simp_all add: butlast_append)

lemma merge_step_nonempty: "acc \<noteq> [] \<Longrightarrow> merge_step acc e \<noteq> []"
  by (cases e) simp_all

lemma merge_loop_append:
  "acc2 \<noteq> [] \<Longrightarrow> foldl merge_step (acc1 @ acc2) raw = acc1 @ foldl merge_step acc2 raw"
proof (induction raw arbitrary: acc2)
  case Nil
  show ?case by simp
next
  case (Cons e raw)
  from Cons.prems have "merge_step acc2 e \<noteq> []" by (rule merge_step_nonempty)
  then have "foldl merge_step (acc1 @ merge_step acc2 e) raw
               = acc1 @ foldl merge_step (merge_step acc2 e) raw"
    by (rule Cons.IH)
  with Cons.prems show ?case by (simp add: merge_step_append)
qed

lemma merge_leading_sustains:
  "foldl merge_step (map Rest pre) (map (\<lambda>(ns, d). Sustain ns d) sus)
     = map Rest pre @ map (\<lambda>(ns, d). Rest d) sus"
proof (induction sus arbitrary: pre)
  case Nil
  show ?case by simp
next
  case (Cons x sus)
  obtain ns d where x: "x = (ns, d)" by (cases x)
  have "merge_step (map Rest pre) (Sustain ns d) = map Rest (pre @ [d])"
    by (cases pre rule: rev_cases) simp_all
  with Cons.IH [of "pre @ [d]"] x show ?case by simp
qed

text \<open>
  C3, as the code has it. A sustain whose preceding merged event is a note extends that
  note by the sustain's duration. A sustain with no preceding note (the merged sequence
  is empty, or ends with a rest) appends a rest of its own duration: a clef sequence that
  begins with \<open>n\<close> sustains yields \<open>n\<close> leading rests, one for each sustain, and the
  merging of what follows starts after them.
\<close>

theorem sustain_merging:
  "(merge_sustain_events raw = ms @ [Note ps d] \<longrightarrow>
      merge_sustain_events (raw @ [Sustain ns s]) = ms @ [Note ps (d + s)]) \<and>
   (merge_sustain_events raw = [] \<or> (\<exists>ms d. merge_sustain_events raw = ms @ [Rest d]) \<longrightarrow>
      merge_sustain_events (raw @ [Sustain ns s]) = merge_sustain_events raw @ [Rest s]) \<and>
   merge_sustain_events (map (\<lambda>(ns, d). Sustain ns d) sus)
     = map (\<lambda>(ns, d). Rest d) sus \<and>
   merge_sustain_events (map (\<lambda>(ns, d). Sustain ns d) sus @ Note ps d # more_raw)
     = map (\<lambda>(ns, d). Rest d) sus @ merge_sustain_events (Note ps d # more_raw)"
proof (intro conjI impI)
  assume "merge_sustain_events raw = ms @ [Note ps d]"
  then show "merge_sustain_events (raw @ [Sustain ns s]) = ms @ [Note ps (d + s)]"
    by (simp add: merge_sustain_snoc)
next
  assume "merge_sustain_events raw = [] \<or> (\<exists>ms d. merge_sustain_events raw = ms @ [Rest d])"
  then show "merge_sustain_events (raw @ [Sustain ns s]) = merge_sustain_events raw @ [Rest s]"
    by (auto simp: merge_sustain_snoc)
next
  show lead: "merge_sustain_events (map (\<lambda>(ns, d). Sustain ns d) sus)
     = map (\<lambda>(ns, d). Rest d) sus"
    using merge_leading_sustains [of "[]" sus] by (simp add: merge_sustain_events_def)
  have "foldl merge_step (map (\<lambda>(ns, d). Rest d) sus @ [Note ps d]) more_raw
          = map (\<lambda>(ns, d). Rest d) sus @ foldl merge_step [Note ps d] more_raw"
    by (rule merge_loop_append) simp
  with lead
  show "merge_sustain_events (map (\<lambda>(ns, d). Sustain ns d) sus @ Note ps d # more_raw)
     = map (\<lambda>(ns, d). Rest d) sus @ merge_sustain_events (Note ps d # more_raw)"
    by (simp add: merge_sustain_events_def)
qed

theorem sustain_merging_witness:
  "merge_sustain_events [Note [65] 2] = [] @ [Note [65] 2] \<and>
   merge_sustain_events ([Note [65] 2] @ [Sustain [] 3]) = [] @ [Note [65] 5] \<and>
   merge_sustain_events [Sustain [] 1] = [] @ [Rest 1] \<and>
   merge_sustain_events ([Sustain [] 1] @ [Sustain [] 4]) = [Rest 1, Rest 4]"
  using sustain_merging [of "[Note [65] 2]" "[]" "[65]" 2 "[]" 3]
        sustain_merging [of "[Sustain [] 1]" "[]" "[]" 0 "[]" 4]
  by (simp add: merge_sustain_events_def)

text \<open>
  C3 as stated fails: the treble sequence of the text \<open>/1/2/\<close> begins with two sustains,
  and their merging is two rests of duration 1, not one rest of duration 2.
\<close>

theorem sustain_single_rest_counterexample:
  "fst (split_events (parse_number_string (S ''/1/2/''))) = [Sustain [] 1, Sustain [] 1] \<and>
   merge_sustain_events [Sustain [] 1, Sustain [] 1] = [Rest 1, Rest 1] \<and>
   merge_sustain_events [Sustain [] 1, Sustain [] 1] \<noteq> [Rest 2]"
proof -
  have "parse_number_string (S ''/1/2/'')
          = [\<lparr>ev_notes = [41], ev_duration = 1\<rparr>, \<lparr>ev_notes = [43], ev_duration = 1\<rparr>]"
    by (simp add: S_def isspace_def strip_def startswith_def endswith_def normalize_def
          parse_number_string_def slot_notes_def number_to_midi_def NUMBER_TO_MIDI_MAP_def
          parse_loop.simps lookahead.simps split_ws.simps)
  then show ?thesis
    by (simp add: split_events_map raw_event_def merge_sustain_events_def)
qed

subsection \<open>The track encoder\<close>

lemma foldl_snoc_map: "foldl (\<lambda>t n. t @ [f n]) track ns = track @ map f ns"
  by (induction ns arbitrary: track) simp_all

lemma write_event_note:
  "ns \<noteq> [] \<Longrightarrow>
   write_event (pending, track) (Note ns d) = Inr (0, track @ note_messages pending ns d)"
  by (cases ns) (simp_all add: foldl_snoc_map TICKS_PER_8TH_NOTE_def)

lemma write_loop_encode:
  "merged_ok evs \<Longrightarrow>
   \<exists>pending'. write_loop (pending, track) evs = Inr (pending', track @ encode pending evs)"
proof (induction evs arbitrary: pending track)
  case Nil
  show ?case by simp
next
  case (Cons e evs)
  from Cons.prems have ok: "merged_ok evs" by (simp add: merged_ok_def)
  show ?case
  proof (cases e)
    case (Note ns d)
    with Cons.prems have "ns \<noteq> []" by (simp add: merged_ok_def)
    then have "write_event (pending, track) e = Inr (0, track @ note_messages pending ns d)"
      unfolding Note by (rule write_event_note)
    with Cons.IH [OF ok, of 0 "track @ note_messages pending ns d"] Note
    show ?thesis by simp
  next
    case (Sustain ns d)
    with Cons.prems show ?thesis by (simp add: merged_ok_def)
  next
    case (Rest d)
    with Cons.IH [OF ok, of "pending + d * 240" track]
    show ?thesis by (simp add: TICKS_PER_8TH_NOTE_def)
  qed
qed

text \<open>The sequences the merger builds from the splitter's are merged sequences.\<close>

lemma merge_step_merged_ok:
  assumes "merged_ok merged"
    and "case e of Note ns d \<Rightarrow> ns \<noteq> [] | Sustain ns d \<Rightarrow> True | Rest d \<Rightarrow> False"
  shows "merged_ok (merge_step merged e)"
proof (cases e)
  case (Note ns d)
  with assms show ?thesis by (simp add: merged_ok_def)
next
  case (Sustain ns d)
  show ?thesis
  proof (cases "merged \<noteq> [] \<and> is_note (last merged)")
    case True
    then obtain ms ns0 d0 where m: "merged = ms @ [Note ns0 d0]"
      by (cases merged rule: rev_cases) (auto elim: is_note.elims)
    with assms Sustain show ?thesis by (simp add: merged_ok_def)
  next
    case False
    with assms Sustain show ?thesis by (auto simp: merged_ok_def)
  qed
next
  case (Rest d)
  with assms show ?thesis by simp
qed

lemma merge_loop_merged_ok:
  "merged_ok merged \<Longrightarrow>
   list_all (\<lambda>e. case e of Note ns d \<Rightarrow> ns \<noteq> [] | Sustain ns d \<Rightarrow> True | Rest d \<Rightarrow> False) raw \<Longrightarrow>
   merged_ok (foldl merge_step merged raw)"
  by (induction raw arbitrary: merged) (simp_all add: merge_step_merged_ok)

lemma pipeline_merged_ok:
  "merged_ok (merge_sustain_events (fst (split_events evs))) \<and>
   merged_ok (merge_sustain_events (snd (split_events evs)))"
proof -
  have "list_all (\<lambda>e. case e of Note ns d \<Rightarrow> ns \<noteq> [] | Sustain ns d \<Rightarrow> True | Rest d \<Rightarrow> False)
          (map (\<lambda>ev. raw_event (filter P (ev_notes ev)) (ev_duration ev)) evs)" for P
    by (induction evs) (simp_all add: raw_event_def)
  moreover have "merged_ok []" by (simp add: merged_ok_def)
  ultimately have "merged_ok (foldl merge_step []
      (map (\<lambda>ev. raw_event (filter P (ev_notes ev)) (ev_duration ev)) evs))" for P
    using merge_loop_merged_ok by blast
  then show ?thesis
    by (simp add: split_events_map merge_sustain_events_def)
qed

text \<open>
  C2. Over a merged sequence, with the pending delay 0 at the start, the encoder appends
  the messages of \<open>encode\<close>: a rest emits nothing and adds its duration times 240 to the
  pending delay; a note emits the note-on of its first pitch with the pending delay, the
  note-ons of the other pitches with delay 0 in chord order, the note-off of the first
  pitch with delay duration times 240, the note-offs of the others with delay 0, and
  leaves the pending delay 0.
\<close>

theorem encoder_message_shape:
  "merged_ok evs \<Longrightarrow>
   write_track_from_final_events track evs = Inr (track @ encode 0 evs) \<and>
   write_event (pending, track) (Rest d) = Inr (pending + d * 240, track) \<and>
   write_event (pending, track) (Note (p # ps) d)
     = Inr (0, track @ [NoteOn p 80 pending] @ map (\<lambda>q. NoteOn q 80 0) ps
                    @ [NoteOff p 80 (d * 240)] @ map (\<lambda>q. NoteOff q 80 0) ps)"
proof (intro conjI)
  assume "merged_ok evs"
  then obtain pending' where "write_loop (0, track) evs = Inr (pending', track @ encode 0 evs)"
    using write_loop_encode by blast
  then show "write_track_from_final_events track evs = Inr (track @ encode 0 evs)"
    by (simp add: write_track_from_final_events_def)
next
  show "write_event (pending, track) (Rest d) = Inr (pending + d * 240, track)"
    by (simp add: TICKS_PER_8TH_NOTE_def)
next
  show "write_event (pending, track) (Note (p # ps) d)
     = Inr (0, track @ [NoteOn p 80 pending] @ map (\<lambda>q. NoteOn q 80 0) ps
                    @ [NoteOff p 80 (d * 240)] @ map (\<lambda>q. NoteOff q 80 0) ps)"
    by (simp add: foldl_snoc_map TICKS_PER_8TH_NOTE_def)
qed

theorem encoder_message_shape_witness:
  "merged_ok [Rest 2, Note [60, 64] 3, Rest 1, Rest 1, Note [62] 1] \<and>
   write_track_from_final_events [] [Rest 2, Note [60, 64] 3, Rest 1, Rest 1, Note [62] 1]
     = Inr [NoteOn 60 80 480, NoteOn 64 80 0, NoteOff 60 80 720, NoteOff 64 80 0,
            NoteOn 62 80 480, NoteOff 62 80 240]"
  using encoder_message_shape [of "[Rest 2, Note [60, 64] 3, Rest 1, Rest 1, Note [62] 1]" "[]"]
  by (simp add: merged_ok_def)

lemma absolute_append:
  "absolute t (xs @ ys) = absolute t xs @ absolute (t + sum_list (map time xs)) ys"
  by (induction xs arbitrary: t) (simp_all add: add.assoc)

lemma absolute_zero_ons: "absolute t (map (\<lambda>q. NoteOn q 80 0) ps) = map (\<lambda>q. NoteOn q 80 t) ps"
  by (induction ps) simp_all

lemma absolute_zero_offs: "absolute t (map (\<lambda>q. NoteOff q 80 0) ps) = map (\<lambda>q. NoteOff q 80 t) ps"
  by (induction ps) simp_all

lemma sum_time_zero_ons: "sum_list (map time (map (\<lambda>q. NoteOn q 80 0) ps)) = 0"
  by (induction ps) simp_all

lemma sum_time_zero_offs: "sum_list (map time (map (\<lambda>q. NoteOff q 80 0) ps)) = 0"
  by (induction ps) simp_all

lemma absolute_note_messages:
  "ps \<noteq> [] \<Longrightarrow>
   absolute t (note_messages pending ps d)
     = map (\<lambda>q. NoteOn q 80 (t + pending)) ps
       @ map (\<lambda>q. NoteOff q 80 (t + pending + d * 240)) ps"
  by (cases ps)
     (simp_all add: absolute_append absolute_zero_ons absolute_zero_offs comp_def)

lemma sum_time_note_messages:
  "ps \<noteq> [] \<Longrightarrow> sum_list (map time (note_messages pending ps d)) = pending + d * 240"
  by (cases ps) (simp_all add: comp_def)

lemma absolute_encode:
  "merged_ok es \<Longrightarrow> t + pending = onset (pre @ es) (length pre) \<Longrightarrow>
   absolute t (encode pending es)
     = concat (map (expected_at (pre @ es)) [length pre..<length pre + length es])"
proof (induction es arbitrary: pre t pending)
  case Nil
  show ?case by simp
next
  case (Cons e es)
  from Cons.prems(1) have ok: "merged_ok es" by (simp add: merged_ok_def)
  have idx: "[length pre..<length pre + length (e # es)]
               = length pre # [length (pre @ [e])..<length (pre @ [e]) + length es]"
    by (subst upt_rec) simp
  have base: "onset (pre @ e # es) (length pre) = 240 * sum_list (map duration_of pre)"
    by (simp add: onset_def)
  have nxt: "onset ((pre @ [e]) @ es) (length (pre @ [e]))
               = 240 * sum_list (map duration_of pre) + 240 * duration_of e"
    by (simp add: onset_def algebra_simps)
  show ?case
  proof (cases e)
    case (Note ps d)
    with Cons.prems(1) have ne: "ps \<noteq> []" by (simp add: merged_ok_def)
    have here: "expected_at (pre @ e # es) (length pre)
                  = absolute t (note_messages pending ps d)"
      using Cons.prems(2) base Note ne
      by (simp add: expected_at_def absolute_note_messages)
    have "(t + (pending + d * 240)) + 0 = onset ((pre @ [e]) @ es) (length (pre @ [e]))"
      using Cons.prems(2) base nxt Note by simp
    from Cons.IH [OF ok this]
    have rest: "absolute (t + (pending + d * 240)) (encode 0 es)
            = concat (map (expected_at (pre @ e # es))
                [length (pre @ [e])..<length (pre @ [e]) + length es])"
      by simp
    show ?thesis
      unfolding idx using here rest Note ne
      by (simp add: absolute_append sum_time_note_messages)
  next
    case (Sustain ns d)
    with Cons.prems(1) show ?thesis by (simp add: merged_ok_def)
  next
    case (Rest d)
    have here: "expected_at (pre @ e # es) (length pre) = []"
      using Rest by (simp add: expected_at_def)
    have "t + (pending + d * 240) = onset ((pre @ [e]) @ es) (length (pre @ [e]))"
      using Cons.prems(2) base nxt Rest by simp
    from Cons.IH [OF ok this]
    have rest: "absolute t (encode (pending + d * 240) es)
            = concat (map (expected_at (pre @ e # es))
                [length (pre @ [e])..<length (pre @ [e]) + length es])"
      by simp
    show ?thesis
      unfolding idx using here rest Rest by simp
  qed
qed

text \<open>
  C1. Replaying the messages the encoder appends for a merged sequence, delta times
  summed from 0, gives for each note event, in order, the note-ons of its pitches at
  240 times the sum of the durations of the events before it, then the note-offs of its
  pitches at that onset plus its duration times 240, and nothing else.
\<close>

theorem round_trip_timing:
  "merged_ok evs \<Longrightarrow>
   \<exists>msgs. write_track_from_final_events track evs = Inr (track @ msgs) \<and>
          absolute 0 msgs = concat (map (expected_at evs) [0..<length evs])"
proof -
  assume ok: "merged_ok evs"
  then obtain pending' where "write_loop (0, track) evs = Inr (pending', track @ encode 0 evs)"
    using write_loop_encode by blast
  then have w: "write_track_from_final_events track evs = Inr (track @ encode 0 evs)"
    by (simp add: write_track_from_final_events_def)
  have "absolute 0 (encode 0 evs) = concat (map (expected_at ([] @ evs)) [length ([]::event list)..<length ([]::event list) + length evs])"
    by (rule absolute_encode [OF ok]) (simp add: onset_def)
  with w show ?thesis by simp
qed

theorem round_trip_timing_witness:
  "merged_ok [Rest 2, Note [60, 64] 3, Rest 1, Rest 1, Note [62] 1] \<and>
   (\<exists>msgs. write_track_from_final_events [SetTempo 400000 0]
              [Rest 2, Note [60, 64] 3, Rest 1, Rest 1, Note [62] 1]
            = Inr ([SetTempo 400000 0] @ msgs) \<and>
          absolute 0 msgs 
            = [NoteOn 60 80 480, NoteOn 64 80 480, NoteOff 60 80 1200, NoteOff 64 80 1200,
               NoteOn 62 80 1680, NoteOff 62 80 1920])"
  using round_trip_timing [of "[Rest 2, Note [60, 64] 3, Rest 1, Rest 1, Note [62] 1]" "[SetTempo 400000 0]"]
  by (simp add: merged_ok_def expected_at_def onset_def upt_conv_Cons)

subsection \<open>The post-validator on the encoder's output\<close>

lemma check_track_append:
  "check_track tpb st (xs @ ys)
     = (case check_track tpb st xs of None \<Rightarrow> None | Some st' \<Rightarrow> check_track tpb st' ys)"
  by (induction xs arbitrary: st) (simp_all split: option.splits)

lemma released_settled: "released st \<Longrightarrow> settled st"
  by (fastforce simp: released_def settled_def)

lemma settled_note_on:
  "settled st \<Longrightarrow> 0 \<le> t \<Longrightarrow>
   \<exists>st'. check_msg 480 st (NoteOn p 80 t) = Some st' \<and> settled st'"
  by (fastforce simp: settled_def note_on_branch_def)

lemma settled_note_ons:
  "settled st \<Longrightarrow>
   \<exists>st'. check_track 480 st (map (\<lambda>q. NoteOn q 80 0) ps) = Some st' \<and> settled st'"
proof (induction ps arbitrary: st)
  case Nil
  then show ?case by simp
next
  case (Cons p ps)
  from settled_note_on [OF Cons.prems, of 0 p]
  obtain st1 where s1: "check_msg 480 st (NoteOn p 80 0) = Some st1" "settled st1" by auto
  from Cons.IH [OF s1(2)] s1(1) show ?case by simp
qed

lemma settled_first_off:
  "settled st \<Longrightarrow> 240 \<le> t \<Longrightarrow>
   \<exists>st'. check_msg 480 st (NoteOff p 80 t) = Some st' \<and> released st'"
  by (fastforce simp: settled_def released_def note_off_branch_def Let_def split: option.splits)

lemma released_off:
  "released st \<Longrightarrow>
   \<exists>st'. check_msg 480 st (NoteOff p 80 0) = Some st' \<and> released st'"
  by (fastforce simp: released_def note_off_branch_def Let_def split: option.splits)

lemma released_offs:
  "released st \<Longrightarrow>
   \<exists>st'. check_track 480 st (map (\<lambda>q. NoteOff q 80 0) ps) = Some st' \<and> released st'"
proof (induction ps arbitrary: st)
  case Nil
  then show ?case by simp
next
  case (Cons p ps)
  from released_off [OF Cons.prems, of p]
  obtain st1 where s1: "check_msg 480 st (NoteOff p 80 0) = Some st1" "released st1" by auto
  from Cons.IH [OF s1(2)] s1(1) show ?case by simp
qed

lemma settled_note_messages:
  assumes "settled st" and "0 \<le> pending" and "1 \<le> d" and "ps \<noteq> []"
  shows "\<exists>st'. check_track 480 st (note_messages pending ps d) = Some st' \<and> settled st'"
proof -
  from assms(4) obtain p qs where ps: "ps = p # qs" by (cases ps) auto
  from settled_note_on [OF assms(1,2), of p]
  obtain st1 where s1: "check_msg 480 st (NoteOn p 80 pending) = Some st1" "settled st1" by auto
  from settled_note_ons [OF s1(2), of qs]
  obtain st2 where s2: "check_track 480 st1 (map (\<lambda>q. NoteOn q 80 0) qs) = Some st2" "settled st2"
    by auto
  from assms(3) have "240 \<le> d * 240" by simp
  from settled_first_off [OF s2(2) this, of p]
  obtain st3 where s3: "check_msg 480 st2 (NoteOff p 80 (d * 240)) = Some st3" "released st3"
    by auto
  from released_offs [OF s3(2), of qs]
  obtain st4 where s4: "check_track 480 st3 (map (\<lambda>q. NoteOff q 80 0) qs) = Some st4" "released st4"
    by auto
  from s1 s2 s3 s4 have "check_track 480 st (note_messages pending ps d) = Some st4"
    by (simp add: ps check_track_append)
  with s4(2) show ?thesis by (auto intro: released_settled)
qed

lemma settled_encode:
  "timed_ok evs \<Longrightarrow> settled st \<Longrightarrow> 0 \<le> pending \<Longrightarrow>
   \<exists>st'. check_track 480 st (encode pending evs) = Some st' \<and> settled st'"
proof (induction evs arbitrary: st pending)
  case Nil
  then show ?case by simp
next
  case (Cons e evs)
  from Cons.prems(1) have ok: "timed_ok evs" by (simp add: timed_ok_def)
  show ?case
  proof (cases e)
    case (Note ns d)
    with Cons.prems(1) have "ns \<noteq> []" "1 \<le> d" by (simp_all add: timed_ok_def)
    from settled_note_messages [OF Cons.prems(2,3) this(2,1)]
    obtain st1 where s1: "check_track 480 st (note_messages pending ns d) = Some st1" "settled st1"
      by auto
    from Cons.IH [OF ok s1(2), of 0] s1(1) Note show ?thesis
      by (simp add: check_track_append)
  next
    case (Sustain ns d)
    with Cons.prems(1) show ?thesis by (simp add: timed_ok_def)
  next
    case (Rest d)
    with Cons.prems(1) have "0 \<le> d" by (simp add: timed_ok_def)
    with Cons.prems(3) have "0 \<le> pending + d * 240" by simp
    from Cons.IH [OF ok Cons.prems(2) this] Rest show ?thesis by simp
  qed
qed

lemma timed_ok_merged: "timed_ok evs \<Longrightarrow> merged_ok evs"
  by (induction evs) (auto simp: timed_ok_def merged_ok_def split: event.splits)

lemma merge_step_timed:
  assumes "timed_ok merged"
    and "case e of Note ns d \<Rightarrow> ns \<noteq> [] \<and> 1 \<le> d | Sustain ns d \<Rightarrow> 1 \<le> d | Rest d \<Rightarrow> False"
  shows "timed_ok (merge_step merged e)"
proof (cases e)
  case (Note ns d)
  with assms show ?thesis by (simp add: timed_ok_def)
next
  case (Sustain ns d)
  show ?thesis
  proof (cases "merged \<noteq> [] \<and> is_note (last merged)")
    case True
    then obtain ms ns0 d0 where m: "merged = ms @ [Note ns0 d0]"
      by (cases merged rule: rev_cases) (auto elim: is_note.elims)
    with assms Sustain show ?thesis by (simp add: timed_ok_def)
  next
    case False
    with assms Sustain show ?thesis by (auto simp: timed_ok_def)
  qed
next
  case (Rest d)
  with assms show ?thesis by simp
qed

lemma merge_loop_timed:
  "timed_ok merged \<Longrightarrow>
   list_all (\<lambda>e. case e of Note ns d \<Rightarrow> ns \<noteq> [] \<and> 1 \<le> d | Sustain ns d \<Rightarrow> 1 \<le> d
                        | Rest d \<Rightarrow> False) raw \<Longrightarrow>
   timed_ok (foldl merge_step merged raw)"
  by (induction raw arbitrary: merged) (simp_all add: merge_step_timed)

lemma split_then_merge_timed:
  assumes "\<forall>e \<in> set evs. 1 \<le> ev_duration e"
  shows "timed_ok (merge_sustain_events (fst (split_events evs)))"
    and "timed_ok (merge_sustain_events (snd (split_events evs)))"
proof -
  have "list_all (\<lambda>e. case e of Note ns d \<Rightarrow> ns \<noteq> [] \<and> 1 \<le> d | Sustain ns d \<Rightarrow> 1 \<le> d
                        | Rest d \<Rightarrow> False) (map (\<lambda>ev. raw_event (filter P (ev_notes ev)) (ev_duration ev)) evs)"
    for P
    using assms by (induction evs) (simp_all add: raw_event_def)
  moreover have "timed_ok []" by (simp add: timed_ok_def)
  ultimately have "timed_ok (foldl merge_step []
      (map (\<lambda>ev. raw_event (filter P (ev_notes ev)) (ev_duration ev)) evs))" for P
    using merge_loop_timed by blast
  then show "timed_ok (merge_sustain_events (fst (split_events evs)))"
    and "timed_ok (merge_sustain_events (snd (split_events evs)))"
    by (simp_all add: split_events_map merge_sustain_events_def)
qed

lemma check_track_end_marker:
  "check_track tpb st tr \<noteq> None \<Longrightarrow> check_track tpb st (tr @ [OtherMessage t]) \<noteq> None"
  by (auto simp: check_track_append)

lemma created_file_passes:
  assumes "\<forall>e \<in> set evs. 1 \<le> ev_duration e"
  shows "\<exists>mid. create_midi_file evs tpb_arg = Inr mid \<and> ticks_per_beat mid = 480 \<and>
           validate_midi_post_creation (Inr mid) \<and>
           validate_midi_post_creation (Inr (with_end_of_track mid))"
proof -
  let ?tr = "merge_sustain_events (fst (split_events evs))"
  let ?ba = "merge_sustain_events (snd (split_events evs))"
  from split_then_merge_timed [OF assms] have t: "timed_ok ?tr" "timed_ok ?ba" .
  obtain p1 where w1: "write_loop (0, [SetTempo 400000 0]) ?tr
                         = Inr (p1, [SetTempo 400000 0] @ encode 0 ?tr)"
    using write_loop_encode [OF timed_ok_merged [OF t(1)]] by blast
  obtain p2 where w2: "write_loop (0, []) ?ba = Inr (p2, [] @ encode 0 ?ba)"
    using write_loop_encode [OF timed_ok_merged [OF t(2)]] by blast
  have init: "settled initial_vstate" by (simp add: settled_def initial_vstate_def)
  then have "settled (initial_vstate\<lparr>absolute_time := absolute_time initial_vstate + 0\<rparr>)"
    by (simp add: settled_def)
  from settled_encode [OF t(1) this, of 0]
  obtain s1 where c1: "check_track 480 initial_vstate (SetTempo 400000 0 # encode 0 ?tr) = Some s1"
    by auto
  from settled_encode [OF t(2) init, of 0]
  obtain s2 where c2: "check_track 480 initial_vstate (encode 0 ?ba) = Some s2"
    by auto
  have "create_midi_file evs tpb_arg
          = Inr \<lparr>ticks_per_beat = 480,
                 tracks = [SetTempo 400000 0 # encode 0 ?tr, encode 0 ?ba]\<rparr>"
    using w1 w2
    by (simp add: create_midi_file_def write_track_from_final_events_def split_beta Let_def)
  moreover have "validate_midi_post_creation
      (Inr \<lparr>ticks_per_beat = 480, tracks = [SetTempo 400000 0 # encode 0 ?tr, encode 0 ?ba]\<rparr>)"
    using c1 c2 by (simp add: validate_midi_post_creation_def)
  moreover have "validate_midi_post_creation (Inr (with_end_of_track
      \<lparr>ticks_per_beat = 480, tracks = [SetTempo 400000 0 # encode 0 ?tr, encode 0 ?ba]\<rparr>))"
    using check_track_end_marker [of 480 initial_vstate "SetTempo 400000 0 # encode 0 ?tr" 0]
          check_track_end_marker [of 480 initial_vstate "encode 0 ?ba" 0] c1 c2
    by (auto simp: validate_midi_post_creation_def with_end_of_track_def)
  ultimately show ?thesis by simp
qed

lemma parsed_durations: "\<forall>e \<in> set (parse_number_string text). 1 \<le> ev_duration e"
  by (auto simp: parse_closed_form decoded_at_def split: if_splits)

text \<open>
  C8. For every list of decoded events of duration 1 or more, and so for the decoding of
  every text, the file that \<open>create_midi_file\<close> builds has 480 ticks per beat and passes
  the post-validator, as built and with the end-of-track markers of the written file:
  every note is held for its duration times 240 ticks, half a beat or more, so no
  release is recorded as short.
\<close>

theorem encoder_output_passes:
  "((\<forall>e \<in> set evs. 1 \<le> ev_duration e) \<longrightarrow>
      (\<exists>mid. create_midi_file evs tpb_arg = Inr mid \<and> ticks_per_beat mid = 480 \<and>
             validate_midi_post_creation (Inr mid) \<and>
             validate_midi_post_creation (Inr (with_end_of_track mid)))) \<and>
   (\<exists>mid. create_midi_file (parse_number_string text) tpb_arg = Inr mid \<and>
          ticks_per_beat mid = 480 \<and> validate_midi_post_creation (Inr mid) \<and>
          validate_midi_post_creation (Inr (with_end_of_track mid)))"
proof (intro conjI impI)
  assume "\<forall>e \<in> set evs. 1 \<le> ev_duration e"
  then show "\<exists>mid. create_midi_file evs tpb_arg = Inr mid \<and> ticks_per_beat mid = 480 \<and>
             validate_midi_post_creation (Inr mid) \<and>
             validate_midi_post_creation (Inr (with_end_of_track mid))"
    by (rule created_file_passes)
next
  show "\<exists>mid. create_midi_file (parse_number_string text) tpb_arg = Inr mid \<and>
          ticks_per_beat mid = 480 \<and> validate_midi_post_creation (Inr mid) \<and>
          validate_midi_post_creation (Inr (with_end_of_track mid))"
    using parsed_durations by (rule created_file_passes)
qed


theorem encoder_output_passes_witness:
  "create_midi_file [\<lparr>ev_notes = [55, 65], ev_duration = 1\<rparr>, \<lparr>ev_notes = [65], ev_duration = 2\<rparr>] 480
     = Inr \<lparr>ticks_per_beat = 480,
            tracks = [[SetTempo 400000 0, NoteOn 65 80 0, NoteOff 65 80 240,
                       NoteOn 65 80 0, NoteOff 65 80 480],
                      [NoteOn 55 80 0, NoteOff 55 80 720]]\<rparr> \<and>
   validate_midi_post_creation
     (Inr \<lparr>ticks_per_beat = 480,
           tracks = [[SetTempo 400000 0, NoteOn 65 80 0, NoteOff 65 80 240,
                      NoteOn 65 80 0, NoteOff 65 80 480],
                     [NoteOn 55 80 0, NoteOff 55 80 720]]\<rparr>)"
proof -
  let ?evs = "[\<lparr>ev_notes = [55, 65], ev_duration = 1\<rparr>, \<lparr>ev_notes = [65], ev_duration = 2\<rparr>]"
  have made: "create_midi_file ?evs 480
     = Inr \<lparr>ticks_per_beat = 480,
            tracks = [[SetTempo 400000 0, NoteOn 65 80 0, NoteOff 65 80 240,
                       NoteOn 65 80 0, NoteOff 65 80 480],
                      [NoteOn 55 80 0, NoteOff 55 80 720]]\<rparr>"
    by (simp add: create_midi_file_def split_events_map raw_event_def merge_sustain_events_def
          write_track_from_final_events_def TICKS_PER_8TH_NOTE_def)
  have "\<forall>e \<in> set ?evs. 1 \<le> ev_duration e" by simp
  with encoder_output_passes [of ?evs 480 "[]"]
  obtain mid where "create_midi_file ?evs 480 = Inr mid" and "validate_midi_post_creation (Inr mid)"
    by blast
  with made show ?thesis by simp
qed

subsection \<open>The post-validator\<close>

lemma time_at_step:
  "n < length tr \<Longrightarrow> time_at tr n = sum_list (map time (take n tr)) + time (tr ! n)"
  by (simp add: time_at_def take_Suc_conv_app_nth)

lemma prefix_time_mono:
  assumes "\<forall>m \<in> set tr. 0 \<le> time m" and "a \<le> b"
  shows "sum_list (map time (take a tr)) \<le> sum_list (map time (take b tr))"
proof -
  from assms(2) have "take b tr = take a tr @ take (b - a) (drop a tr)"
    by (metis le_add_diff_inverse take_add)
  moreover have "0 \<le> sum_list (map time (take (b - a) (drop a tr)))"
  proof (rule sum_list_nonneg)
    fix x assume "x \<in> set (map time (take (b - a) (drop a tr)))"
    then obtain m where "m \<in> set (take (b - a) (drop a tr))" and "x = time m" by auto
    then have "m \<in> set tr" by (meson in_set_takeD in_set_dropD)
    with assms(1) \<open>x = time m\<close> show "0 \<le> x" by simp
  qed
  ultimately show ?thesis by simp
qed

lemma time_at_mono:
  "\<forall>m \<in> set tr. 0 \<le> time m \<Longrightarrow> i \<le> j \<Longrightarrow> time_at tr i \<le> time_at tr j"
  unfolding time_at_def by (rule prefix_time_mono) simp_all

lemma sounding_from_Suc:
  "sounding_from tr p k (Suc n) \<longleftrightarrow>
     (k = n \<and> is_on p (tr ! n)) \<or>
     (sounding_from tr p k n \<and> \<not> is_on p (tr ! n) \<and> \<not> is_off p (tr ! n))"
proof (cases "k < n")
  case True
  then have "{k<..<Suc n} = insert n {k<..<n}" by auto
  with True show ?thesis by (auto simp: sounding_from_def)
next
  case False
  then have "{k<..<Suc n} = {}" by auto
  with False show ?thesis by (auto simp: sounding_from_def less_Suc_eq)
qed

lemma sounding_from_unique:
  assumes "sounding_from tr p k n" and "sounding_from tr p k' n"
  shows "k = k'"
proof (rule ccontr)
  assume "k \<noteq> k'"
  then consider "k < k'" | "k' < k" by arith
  then show False
  proof cases
    case 1
    with assms have "k' \<in> {k<..<n}" and "is_on p (tr ! k')" by (simp_all add: sounding_from_def)
    with assms(1) show False by (auto simp: sounding_from_def)
  next
    case 2
    with assms have "k \<in> {k'<..<n}" and "is_on p (tr ! k)" by (simp_all add: sounding_from_def)
    with assms(2) show False by (auto simp: sounding_from_def)
  qed
qed

lemma is_on_not_off: "is_on p m \<Longrightarrow> \<not> is_off q m"
  by (cases m) auto

lemma short_release_holding:
  assumes inv: "replay_inv tpb tr n st" and off: "is_off p (tr ! n)"
  shows "short_release tpb tr p n \<longleftrightarrow>
           (\<exists>started. notes_on st p = Some started \<and> 2 * (time_at tr n - started) < tpb)"
proof
  assume "short_release tpb tr p n"
  then obtain k where "sounding_from tr p k n" "2 * (time_at tr n - time_at tr k) < tpb"
    by (auto simp: short_release_def)
  moreover from this(1) inv have "notes_on st p = Some (time_at tr k)"
    by (auto simp: replay_inv_def)
  ultimately show "\<exists>started. notes_on st p = Some started \<and> 2 * (time_at tr n - started) < tpb"
    by blast
next
  assume "\<exists>started. notes_on st p = Some started \<and> 2 * (time_at tr n - started) < tpb"
  then obtain started where s: "notes_on st p = Some started" "2 * (time_at tr n - started) < tpb"
    by blast
  with inv obtain k where k: "sounding_from tr p k n" "started = time_at tr k"
    by (auto simp: replay_inv_def)
  then have "k < n" by (simp add: sounding_from_def)
  with k s off show "short_release tpb tr p n"
    by (auto simp: short_release_def)
qed


lemma replay_inv_facts:
  assumes "replay_inv tpb tr n st"
  shows "absolute_time st = sum_list (map time (take n tr))"
    and "\<And>q t. notes_on st q = Some t \<longleftrightarrow> (\<exists>k. sounding_from tr q k n \<and> t = time_at tr k)"
    and "\<And>q t. last_note_off_time st q = Some t \<Longrightarrow>
           \<exists>i < n. short_release tpb tr q i \<and> t = time_at tr i"
    and "\<And>q i. i < n \<Longrightarrow> short_release tpb tr q i \<Longrightarrow>
           \<exists>t. last_note_off_time st q = Some t \<and> time_at tr i \<le> t"
  using assms unfolding replay_inv_def by blast+

lemma replay_invI:
  assumes "absolute_time st = sum_list (map time (take n tr))"
    and "\<And>q t. notes_on st q = Some t \<longleftrightarrow> (\<exists>k. sounding_from tr q k n \<and> t = time_at tr k)"
    and "\<And>q t. last_note_off_time st q = Some t \<Longrightarrow>
           \<exists>i < n. short_release tpb tr q i \<and> t = time_at tr i"
    and "\<And>q i. i < n \<Longrightarrow> short_release tpb tr q i \<Longrightarrow>
           \<exists>t. last_note_off_time st q = Some t \<and> time_at tr i \<le> t"
  shows "replay_inv tpb tr n st"
  using assms unfolding replay_inv_def by blast

lemma replay_step_quiet:
  assumes n: "n < length tr" and inv: "replay_inv tpb tr n st"
    and quiet: "\<And>q. \<not> is_on q (tr ! n) \<and> \<not> is_off q (tr ! n)"
  shows "replay_inv tpb tr (Suc n) (st\<lparr>absolute_time := absolute_time st + time (tr ! n)\<rparr>)"
proof (rule replay_invI)
  note f = replay_inv_facts [OF inv]
  show "absolute_time (st\<lparr>absolute_time := absolute_time st + time (tr ! n)\<rparr>)
          = sum_list (map time (take (Suc n) tr))"
    using n f(1) by (simp add: take_Suc_conv_app_nth)
  show "notes_on (st\<lparr>absolute_time := absolute_time st + time (tr ! n)\<rparr>) q = Some t
          \<longleftrightarrow> (\<exists>k. sounding_from tr q k (Suc n) \<and> t = time_at tr k)" for q t
    using f(2) [of q t] quiet [of q] by (simp add: sounding_from_Suc)
  show "\<exists>i < Suc n. short_release tpb tr q i \<and> t = time_at tr i"
    if "last_note_off_time (st\<lparr>absolute_time := absolute_time st + time (tr ! n)\<rparr>) q = Some t"
    for q t
    using f(3) [of q t] that by (auto simp: less_Suc_eq)
  show "\<exists>t. last_note_off_time (st\<lparr>absolute_time := absolute_time st + time (tr ! n)\<rparr>) q = Some t
            \<and> time_at tr i \<le> t"
    if "i < Suc n" and "short_release tpb tr q i" for q i
  proof -
    from that(2) quiet [of q] have "i \<noteq> n" by (auto simp: short_release_def)
    with that(1) have "i < n" by simp
    from f(4) [OF this that(2)] show ?thesis by simp
  qed
qed

lemma replay_step_on:
  assumes n: "n < length tr" and inv: "replay_inv tpb tr n st" and on: "is_on p (tr ! n)"
  shows "replay_inv tpb tr (Suc n)
           (st\<lparr>absolute_time := absolute_time st + time (tr ! n),
               notes_on := (notes_on st)(p \<mapsto> absolute_time st + time (tr ! n))\<rparr>)"
    (is "replay_inv tpb tr (Suc n) ?st'")
proof (rule replay_invI)
  note f = replay_inv_facts [OF inv]
  have now: "absolute_time st + time (tr ! n) = time_at tr n"
    using n f(1) by (simp add: time_at_step)
  have other: "\<not> is_on q (tr ! n) \<and> \<not> is_off q (tr ! n)" if "q \<noteq> p" for q
    using on that by (cases "tr ! n") auto
  have no_off: "\<not> is_off q (tr ! n)" for q
    using on by (rule is_on_not_off)
  show "absolute_time ?st' = sum_list (map time (take (Suc n) tr))"
    using n f(1) by (simp add: take_Suc_conv_app_nth)
  show "notes_on ?st' q = Some t \<longleftrightarrow> (\<exists>k. sounding_from tr q k (Suc n) \<and> t = time_at tr k)"
    for q t
  proof (cases "q = p")
    case True
    with on now show ?thesis by (auto simp: sounding_from_Suc)
  next
    case False
    with f(2) [of q t] other [of q] show ?thesis by (simp add: sounding_from_Suc)
  qed
  show "\<exists>i < Suc n. short_release tpb tr q i \<and> t = time_at tr i"
    if "last_note_off_time ?st' q = Some t" for q t
    using f(3) [of q t] that by (auto simp: less_Suc_eq)
  show "\<exists>t. last_note_off_time ?st' q = Some t \<and> time_at tr i \<le> t"
    if "i < Suc n" and "short_release tpb tr q i" for q i
  proof -
    from that(2) no_off [of q] have "i \<noteq> n" by (auto simp: short_release_def)
    with that(1) have "i < n" by simp
    from f(4) [OF this that(2)] show ?thesis by simp
  qed
qed

lemma retrigger_at_on:
  assumes inv: "replay_inv tpb tr n st" and on: "is_on p (tr ! n)"
  shows "retrigger_at tpb tr n \<longleftrightarrow>
           (\<exists>off. last_note_off_time st p = Some off \<and> 2 * (time_at tr n - off) < tpb)"
proof
  note f = replay_inv_facts [OF inv]
  have p: "pitch (tr ! n) = p" using on by (cases "tr ! n") auto
  {
    assume "retrigger_at tpb tr n"
    then obtain i where i: "i < n" "short_release tpb tr p i" "2 * (time_at tr n - time_at tr i) < tpb"
      by (auto simp: retrigger_at_def p)
    from f(4) [OF i(1,2)] obtain t where t: "last_note_off_time st p = Some t" "time_at tr i \<le> t"
      by blast
    with i(3) have "2 * (time_at tr n - t) < tpb" by simp
    with t(1) show "\<exists>off. last_note_off_time st p = Some off \<and> 2 * (time_at tr n - off) < tpb"
      by blast
  }
  {
    assume "\<exists>off. last_note_off_time st p = Some off \<and> 2 * (time_at tr n - off) < tpb"
    then obtain off where o: "last_note_off_time st p = Some off" "2 * (time_at tr n - off) < tpb"
      by blast
    from f(3) [OF o(1)] obtain i where "i < n" "short_release tpb tr p i" "off = time_at tr i"
      by blast
    with o(2) on show "retrigger_at tpb tr n"
      by (auto simp: retrigger_at_def p)
  }
qed


lemma note_off_branch_result:
  assumes n: "n < length tr" and inv: "replay_inv tpb tr n st" and off: "is_off p (tr ! n)"
  shows "note_off_branch tpb (st\<lparr>absolute_time := absolute_time st + time (tr ! n)\<rparr>) p
           = Some (if short_release tpb tr p n
                   then st\<lparr>absolute_time := time_at tr n,
                           last_note_off_time := (last_note_off_time st)(p \<mapsto> time_at tr n),
                           notes_on := (notes_on st)(p := None)\<rparr>
                   else st\<lparr>absolute_time := time_at tr n,
                           notes_on := (notes_on st)(p := None)\<rparr>)"
proof -
  have now: "absolute_time st + time (tr ! n) = time_at tr n"
    using n replay_inv_facts(1) [OF inv] by (simp add: time_at_step)
  note sr = short_release_holding [OF inv off]
  show ?thesis
  proof (cases "notes_on st p")
    case None
    then have "(notes_on st)(p := None) = notes_on st" by auto
    with None sr show ?thesis
      by (simp add: note_off_branch_def now)
  next
    case (Some started)
    with sr show ?thesis
      by (simp add: note_off_branch_def now Let_def)
  qed
qed

lemma replay_step_off:
  assumes n: "n < length tr" and nonneg: "\<forall>m \<in> set tr. 0 \<le> time m"
    and inv: "replay_inv tpb tr n st" and off: "is_off p (tr ! n)"
  shows "replay_inv tpb tr (Suc n)
           (if short_release tpb tr p n
            then st\<lparr>absolute_time := time_at tr n,
                    last_note_off_time := (last_note_off_time st)(p \<mapsto> time_at tr n),
                    notes_on := (notes_on st)(p := None)\<rparr>
            else st\<lparr>absolute_time := time_at tr n,
                    notes_on := (notes_on st)(p := None)\<rparr>)"
    (is "replay_inv tpb tr (Suc n) ?st'")
proof (rule replay_invI)
  note f = replay_inv_facts [OF inv]
  have no_on: "\<not> is_on q (tr ! n)" for q
    using off by (cases "tr ! n") auto
  have other: "\<not> is_off q (tr ! n)" if "q \<noteq> p" for q
    using off that by (cases "tr ! n") auto
  have non: "notes_on ?st' = (notes_on st)(p := None)" by simp
  show "absolute_time ?st' = sum_list (map time (take (Suc n) tr))"
    by (simp add: time_at_def)
  show "notes_on ?st' q = Some t \<longleftrightarrow> (\<exists>k. sounding_from tr q k (Suc n) \<and> t = time_at tr k)"
    for q t
  proof (cases "q = p")
    case True
    with off no_on [of p] show ?thesis by (simp add: non sounding_from_Suc)
  next
    case False
    with f(2) [of q t] other [of q] no_on [of q] show ?thesis
      by (simp add: non sounding_from_Suc)
  qed
  show "\<exists>i < Suc n. short_release tpb tr q i \<and> t = time_at tr i"
    if "last_note_off_time ?st' q = Some t" for q t
  proof (cases "short_release tpb tr p n \<and> q = p")
    case True
    with that have "t = time_at tr n" by simp
    with True show ?thesis by blast
  next
    case False
    with that have "last_note_off_time st q = Some t" by (auto split: if_splits)
    from f(3) [OF this] show ?thesis by (auto simp: less_Suc_eq)
  qed
  show "\<exists>t. last_note_off_time ?st' q = Some t \<and> time_at tr i \<le> t"
    if "i < Suc n" and "short_release tpb tr q i" for q i
  proof (cases "short_release tpb tr p n \<and> q = p")
    case True
    from that(1) have "time_at tr i \<le> time_at tr n"
      by (intro time_at_mono [OF nonneg]) simp
    with True show ?thesis by simp
  next
    case False
    have "i \<noteq> n"
    proof
      assume "i = n"
      with that(2) have "short_release tpb tr q n" by simp
      moreover from this have "is_off q (tr ! n)" by (simp add: short_release_def)
      with other [of q] have "q = p" by blast
      ultimately show False using False by simp
    qed
    with that(1) have "i < n" by simp
    from f(4) [OF this that(2)] obtain t where "last_note_off_time st q = Some t" "time_at tr i \<le> t"
      by blast
    with False show ?thesis by (cases "short_release tpb tr p n") auto
  qed
qed

lemma retrigger_at_needs_on: "retrigger_at tpb tr n \<Longrightarrow> \<exists>p. is_on p (tr ! n)"
  by (auto simp: retrigger_at_def)

lemma replay_step:
  assumes n: "n < length tr" and nonneg: "\<forall>m \<in> set tr. 0 \<le> time m"
    and inv: "replay_inv tpb tr n st"
  shows "if retrigger_at tpb tr n then check_msg tpb st (tr ! n) = None
         else (\<exists>st'. check_msg tpb st (tr ! n) = Some st' \<and> replay_inv tpb tr (Suc n) st')"
proof -
  have now: "absolute_time st + time (tr ! n) = time_at tr n"
    using n replay_inv_facts(1) [OF inv] by (simp add: time_at_step)
  consider (on) p where "is_on p (tr ! n)" | (off) p where "is_off p (tr ! n)"
    | (quiet) "\<And>q. \<not> is_on q (tr ! n) \<and> \<not> is_off q (tr ! n)"
    by blast
  then show ?thesis
  proof cases
    case on
    then obtain v t where m: "tr ! n = NoteOn p v t" "0 < v"
      by (cases "tr ! n") auto
    note r = retrigger_at_on [OF inv on]
    note step = replay_step_on [OF n inv on]
    show ?thesis
    proof (cases "retrigger_at tpb tr n")
      case True
      with r obtain off where "last_note_off_time st p = Some off"
        "2 * (time_at tr n - off) < tpb" by blast
      with True m now show ?thesis
        by (simp add: note_on_branch_def Let_def)
    next
      case False
      with r have "\<And>off. last_note_off_time st p = Some off \<Longrightarrow> \<not> 2 * (time_at tr n - off) < tpb"
        by blast
      then have "check_msg tpb st (tr ! n)
                   = Some (st\<lparr>absolute_time := absolute_time st + time (tr ! n),
                              notes_on := (notes_on st)(p \<mapsto> absolute_time st + time (tr ! n))\<rparr>)"
        using m now by (simp add: note_on_branch_def Let_def split: option.splits)
      with False step show ?thesis by simp
    qed
  next
    case off
    then have no_on: "\<And>q. \<not> is_on q (tr ! n)"
      by (cases "tr ! n") auto
    then have nr: "\<not> retrigger_at tpb tr n"
      using retrigger_at_needs_on by blast
    from off no_on have "check_msg tpb st (tr ! n)
         = note_off_branch tpb (st\<lparr>absolute_time := absolute_time st + time (tr ! n)\<rparr>) p"
      by (cases "tr ! n") auto
    with note_off_branch_result [OF n inv off] replay_step_off [OF n nonneg inv off] nr
    show ?thesis by simp
  next
    case quiet
    then have nr: "\<not> retrigger_at tpb tr n"
      using retrigger_at_needs_on by blast
    from quiet have "check_msg tpb st (tr ! n)
         = Some (st\<lparr>absolute_time := absolute_time st + time (tr ! n)\<rparr>)"
    proof (cases "tr ! n")
      case (NoteOn q v t)
      with quiet [of q] show ?thesis by auto
    next
      case (NoteOff q v t)
      with quiet [of q] show ?thesis by auto
    qed simp_all
    with replay_step_quiet [OF n inv quiet] nr show ?thesis by simp
  qed
qed


lemma replay_prefix:
  assumes nonneg: "\<forall>m \<in> set tr. 0 \<le> time m"
  shows "n \<le> length tr \<Longrightarrow>
         (if \<exists>j < n. retrigger_at tpb tr j
          then check_track tpb initial_vstate (take n tr) = None
          else (\<exists>st. check_track tpb initial_vstate (take n tr) = Some st
                     \<and> replay_inv tpb tr n st))"
proof (induction n)
  case 0
  have "replay_inv tpb tr 0 initial_vstate"
    by (rule replay_invI) (simp_all add: initial_vstate_def sounding_from_def)
  then show ?case by simp
next
  case (Suc n)
  then have n: "n < length tr" by simp
  then have tk: "take (Suc n) tr = take n tr @ [tr ! n]"
    by (simp add: take_Suc_conv_app_nth)
  show ?case
  proof (cases "\<exists>j < n. retrigger_at tpb tr j")
    case True
    with Suc.IH n have "check_track tpb initial_vstate (take n tr) = None" by simp
    moreover from True have "\<exists>j < Suc n. retrigger_at tpb tr j" using less_Suc_eq by blast
    ultimately show ?thesis by (simp add: tk check_track_append)
  next
    case False
    with Suc.IH n obtain st where st: "check_track tpb initial_vstate (take n tr) = Some st"
      "replay_inv tpb tr n st" by auto
    from False have ex: "(\<exists>j < Suc n. retrigger_at tpb tr j) \<longleftrightarrow> retrigger_at tpb tr n"
      by (auto simp: less_Suc_eq)
    from st(1) have run: "check_track tpb initial_vstate (take (Suc n) tr) = check_msg tpb st (tr ! n)"
      by (simp add: tk check_track_append split: option.splits)
    from replay_step [OF n nonneg st(2)] show ?thesis
      unfolding ex run .
  qed
qed

lemma check_track_iff:
  assumes "\<forall>m \<in> set tr. 0 \<le> time m"
  shows "check_track tpb initial_vstate tr = None \<longleftrightarrow> retrigger tpb tr"
proof -
  have "(\<exists>j < length tr. retrigger_at tpb tr j) \<longleftrightarrow> retrigger tpb tr"
    by (auto simp: retrigger_def)
  with replay_prefix [OF assms, of "length tr" tpb] show ?thesis
    by (auto split: if_splits)
qed

lemma check_tracks_iff:
  "check_tracks tpb trs \<longleftrightarrow> (\<forall>tr \<in> set trs. check_track tpb initial_vstate tr \<noteq> None)"
  by (induction trs) (auto split: option.splits)

text \<open>
  C7. A file that cannot be read gives False. For a file that is read, with delta times
  that are not negative as a MIDI file has them, post-validation returns False exactly
  when on some track a note-on of a pitch comes less than half a beat after an earlier
  note-off of that pitch whose own note had been held for less than half a beat.
\<close>

theorem post_validation_iff:
  "validate_midi_post_creation (Inl err) = False \<and>
   ((\<forall>tr \<in> set (tracks mid). \<forall>m \<in> set tr. 0 \<le> time m) \<longrightarrow>
      (validate_midi_post_creation (Inr mid) = False
         \<longleftrightarrow> (\<exists>tr \<in> set (tracks mid). retrigger (ticks_per_beat mid) tr)))"
proof (intro conjI impI)
  show "validate_midi_post_creation (Inl err) = False"
    by (simp add: validate_midi_post_creation_def)
next
  assume nonneg: "\<forall>tr \<in> set (tracks mid). \<forall>m \<in> set tr. 0 \<le> time m"
  have "validate_midi_post_creation (Inr mid) = False
          \<longleftrightarrow> (\<exists>tr \<in> set (tracks mid). check_track (ticks_per_beat mid) initial_vstate tr = None)"
    by (simp add: validate_midi_post_creation_def check_tracks_iff)
  also have "\<dots> \<longleftrightarrow> (\<exists>tr \<in> set (tracks mid). retrigger (ticks_per_beat mid) tr)"
    using nonneg check_track_iff by blast
  finally show "validate_midi_post_creation (Inr mid) = False
         \<longleftrightarrow> (\<exists>tr \<in> set (tracks mid). retrigger (ticks_per_beat mid) tr)" .
qed

theorem post_validation_iff_witness:
  "validate_midi_post_creation
     (Inr \<lparr>ticks_per_beat = 480,
           tracks = [[SetTempo 400000 0],
                     [NoteOn 60 80 0, NoteOff 60 80 100, NoteOn 60 80 100]]\<rparr>) = False \<and>
   retrigger 480 [NoteOn 60 80 0, NoteOff 60 80 100, NoteOn 60 80 100] \<and>
   validate_midi_post_creation
     (Inr \<lparr>ticks_per_beat = 480,
           tracks = [[NoteOn 60 80 0, NoteOff 60 80 100, NoteOn 60 80 240]]\<rparr>) = True \<and>
   \<not> retrigger 480 [NoteOn 60 80 0, NoteOff 60 80 100, NoteOn 60 80 240]"
proof -
  let ?bad = "\<lparr>ticks_per_beat = 480,
           tracks = [[SetTempo 400000 0],
                     [NoteOn 60 80 0, NoteOff 60 80 100, NoteOn 60 80 100]]\<rparr>"
  let ?good = "\<lparr>ticks_per_beat = 480,
           tracks = [[NoteOn 60 80 0, NoteOff 60 80 100, NoteOn 60 80 240]]\<rparr>"
  have v1: "validate_midi_post_creation (Inr ?bad) = False"
    by (simp add: validate_midi_post_creation_def initial_vstate_def note_on_branch_def
          note_off_branch_def)
  have v2: "validate_midi_post_creation (Inr ?good) = True"
    by (simp add: validate_midi_post_creation_def initial_vstate_def note_on_branch_def
          note_off_branch_def)
  have n1: "\<forall>tr \<in> set (tracks ?bad). \<forall>m \<in> set tr. 0 \<le> time m" by simp
  have n2: "\<forall>tr \<in> set (tracks ?good). \<forall>m \<in> set tr. 0 \<le> time m" by simp
  have quiet: "\<not> retrigger 480 [SetTempo 400000 0]"
    by (simp add: retrigger_def retrigger_at_def)
  from post_validation_iff [of ReadError ?bad] n1 v1
  have "\<exists>tr \<in> set (tracks ?bad). retrigger (ticks_per_beat ?bad) tr" by blast
  with quiet have r1: "retrigger 480 [NoteOn 60 80 0, NoteOff 60 80 100, NoteOn 60 80 100]"
    by simp
  from post_validation_iff [of ReadError ?good] n2 v2
  have "\<not> (\<exists>tr \<in> set (tracks ?good). retrigger (ticks_per_beat ?good) tr)" by blast
  then have r2: "\<not> retrigger 480 [NoteOn 60 80 0, NoteOff 60 80 100, NoteOn 60 80 240]"
    by simp
  from v1 r1 v2 r2 show ?thesis by (simp only: simp_thms)
qed

end
